theory Spec2Isabelle
  imports Main "HOL-Library.Finite_Map"
begin

section \<open>Bytes and runes\<close>

type_synonym rune = nat

definition byte :: "char \<Rightarrow> nat" where
  "byte c = of_char c"

definition RuneError :: rune where
  "RuneError = 0xFFFD"

definition RuneSelf :: nat where
  "RuneSelf = 0x80"

text \<open>A continuation byte of UTF-8: \<^verbatim>\<open>0x80 .. 0xBF\<close>.\<close>

definition is_cont :: "char \<Rightarrow> bool" where
  "is_cont c = (0x80 \<le> byte c \<and> byte c \<le> 0xBF)"

text \<open>
  \<^verbatim>\<open>utf8.DecodeRuneInString\<close>: the first rune of the string and the number of bytes
  it takes; \<open>(RuneError, 0)\<close> for the empty string and \<open>(RuneError, 1)\<close> for a byte
  that starts no well-formed encoding (overlong forms, surrogates and values above
  \<^verbatim>\<open>U+10FFFF\<close> are not well formed).
\<close>

fun DecodeRuneInString :: "string \<Rightarrow> rune \<times> nat" where
  "DecodeRuneInString [] = (RuneError, 0)"
| "DecodeRuneInString (c0 # s) =
     (let b0 = byte c0 in
      if b0 < 0x80 then (b0, 1)
      else if b0 < 0xC2 then (RuneError, 1)
      else if b0 < 0xE0 then
        (case s of
           c1 # _ \<Rightarrow>
             if is_cont c1 then ((b0 mod 0x20) * 0x40 + byte c1 mod 0x40, 2)
             else (RuneError, 1)
         | _ \<Rightarrow> (RuneError, 1))
      else if b0 < 0xF0 then
        (case s of
           c1 # c2 # _ \<Rightarrow>
             if (if b0 = 0xE0 then 0xA0 else 0x80) \<le> byte c1
                \<and> byte c1 \<le> (if b0 = 0xED then 0x9F else 0xBF) \<and> is_cont c2
             then ((b0 mod 0x10) * 0x1000 + (byte c1 mod 0x40) * 0x40 + byte c2 mod 0x40, 3)
             else (RuneError, 1)
         | _ \<Rightarrow> (RuneError, 1))
      else if b0 < 0xF5 then
        (case s of
           c1 # c2 # c3 # _ \<Rightarrow>
             if (if b0 = 0xF0 then 0x90 else 0x80) \<le> byte c1
                \<and> byte c1 \<le> (if b0 = 0xF4 then 0x8F else 0xBF) \<and> is_cont c2 \<and> is_cont c3
             then ((b0 mod 0x08) * 0x40000 + (byte c1 mod 0x40) * 0x1000
                   + (byte c2 mod 0x40) * 0x40 + byte c3 mod 0x40, 4)
             else (RuneError, 1)
         | _ \<Rightarrow> (RuneError, 1))
      else (RuneError, 1))"

declare DecodeRuneInString.simps [simp del]

text \<open>
  \<^verbatim>\<open>utf8.AppendRune\<close> (what \<^verbatim>\<open>strings.Builder.WriteRune\<close> writes): surrogates and
  values above \<^verbatim>\<open>U+10FFFF\<close> are written as \<^verbatim>\<open>U+FFFD\<close>.
\<close>

definition EncodeRune :: "rune \<Rightarrow> string" where
  "EncodeRune r =
     (if r \<le> 0x7F then [char_of r]
      else if r \<le> 0x7FF then [char_of (0xC0 + r div 0x40), char_of (0x80 + r mod 0x40)]
      else if 0x10FFFF < r \<or> (0xD800 \<le> r \<and> r \<le> 0xDFFF) then [CHR 0xEF, CHR 0xBF, CHR 0xBD]
      else if r \<le> 0xFFFF then
        [char_of (0xE0 + r div 0x1000), char_of (0x80 + (r div 0x40) mod 0x40),
         char_of (0x80 + r mod 0x40)]
      else
        [char_of (0xF0 + r div 0x40000), char_of (0x80 + (r div 0x1000) mod 0x40),
         char_of (0x80 + (r div 0x40) mod 0x40), char_of (0x80 + r mod 0x40)])"

text \<open>
  \<^verbatim>\<open>for _, r := range s\<close>: the runes of a string in order, each with the bytes it was
  read from. An ill-formed byte is read as \<open>RuneError\<close>, one byte wide.
\<close>

fun range_string :: "string \<Rightarrow> (rune \<times> string) list" where
  "range_string [] = []"
| "range_string (c # s) =
     (let n = snd (DecodeRuneInString (c # s))
      in (fst (DecodeRuneInString (c # s)), take n (c # s)) # range_string (drop (n - 1) s))"

text \<open>
  \<^verbatim>\<open>utf8.DecodeLastRuneInString\<close>: the last rune of the string and its width. For
  a last byte of \<^verbatim>\<open>0x80\<close> or more, the start of the rune is looked for among the
  three bytes before it (the nearest byte that is not a continuation byte); when none
  of them starts a rune the search stops one byte further left, or at the start of
  the string. \<open>last_rune_len\<close> gets the bytes before the last one, nearest first, and
  gives the length of the candidate \<^verbatim>\<open>s[start:end]\<close>.
\<close>

definition RuneStart :: "char \<Rightarrow> bool" where
  "RuneStart c = (\<not> is_cont c)"

fun last_rune_len :: "string \<Rightarrow> nat" where
  "last_rune_len [] = 1"
| "last_rune_len [x1] = 2"
| "last_rune_len [x1, x2] = (if RuneStart x1 then 2 else 3)"
| "last_rune_len [x1, x2, x3] = (if RuneStart x1 then 2 else if RuneStart x2 then 3 else 4)"
| "last_rune_len (x1 # x2 # x3 # x4 # t) =
     (if RuneStart x1 then 2 else if RuneStart x2 then 3 else if RuneStart x3 then 4 else 5)"

definition DecodeLastRuneInString :: "string \<Rightarrow> rune \<times> nat" where
  "DecodeLastRuneInString s =
     (case rev s of
        [] \<Rightarrow> (RuneError, 0)
      | x0 # t \<Rightarrow>
          if byte x0 < RuneSelf then (byte x0, 1)
          else
            (let cand = drop (length s - last_rune_len t) s;
                 d = DecodeRuneInString cand
             in if snd d \<noteq> length cand then (RuneError, 1) else d))"

section \<open>The functions of package strings that the relay calls\<close>

text \<open>
  Every separator the relay passes (\<^verbatim>\<open>"\n"\<close>, \<^verbatim>\<open>";"\<close>, \<^verbatim>\<open>":"\<close>) is one byte
  long, so \<open>Index\<close>, \<open>Split\<close> and \<open>SplitN\<close> take the separator as a byte.
  \<open>Index\<close> gives \<open>-1\<close> when the byte does not occur.
\<close>

fun Index :: "string \<Rightarrow> char \<Rightarrow> int" where
  "Index [] sep = - 1"
| "Index (c # s) sep = (if c = sep then 0 else (let i = Index s sep in if i < 0 then - 1 else i + 1))"

fun Split :: "string \<Rightarrow> char \<Rightarrow> string list" where
  "Split [] sep = [[]]"
| "Split (c # s) sep =
     (if c = sep then [] # Split s sep
      else (case Split s sep of p # ps \<Rightarrow> (c # p) # ps | [] \<Rightarrow> [[c]]))"

text \<open>\<^verbatim>\<open>strings.SplitN(s, sep, n)\<close> for \<open>n \<ge> 0\<close>: at most \<open>n\<close> pieces, the last one unsplit.\<close>

fun SplitN :: "string \<Rightarrow> char \<Rightarrow> nat \<Rightarrow> string list" where
  "SplitN s sep 0 = []"
| "SplitN s sep (Suc 0) = [s]"
| "SplitN s sep (Suc (Suc n)) =
     (let i = Index s sep
      in if i < 0 then [s] else take (nat i) s # SplitN (drop (nat i + 1) s) sep (Suc n))"

definition HasPrefix :: "string \<Rightarrow> string \<Rightarrow> bool" where
  "HasPrefix s p = (length p \<le> length s \<and> take (length p) s = p)"

definition TrimPrefix :: "string \<Rightarrow> string \<Rightarrow> string" where
  "TrimPrefix s p = (if HasPrefix s p then drop (length p) s else s)"

text \<open>
  \<^verbatim>\<open>strings.Trim(s, cutset)\<close> for a cutset of ASCII bytes (the relay's is \<^verbatim>\<open>"/ "\<close>):
  the bytes of the cutset are removed from both ends, byte by byte.
\<close>

definition Trim :: "string \<Rightarrow> string \<Rightarrow> string" where
  "Trim s cutset =
     rev (dropWhile (\<lambda>c. c \<in> set cutset) (rev (dropWhile (\<lambda>c. c \<in> set cutset) s)))"

text \<open>
  The table \<^verbatim>\<open>asciiSpace\<close> of package strings and \<^verbatim>\<open>unicode.IsSpace\<close> (the code
  points with the property White_Space).
\<close>

definition asciiSpace :: "char \<Rightarrow> bool" where
  "asciiSpace c = (byte c \<in> {0x09, 0x0A, 0x0B, 0x0C, 0x0D, 0x20})"

definition IsSpace :: "rune \<Rightarrow> bool" where
  "IsSpace r =
     (r \<in> {0x09, 0x0A, 0x0B, 0x0C, 0x0D, 0x20, 0x85, 0xA0, 0x1680, 0x2028, 0x2029, 0x202F,
            0x205F, 0x3000}
      \<or> (0x2000 \<le> r \<and> r \<le> 0x200A))"

text \<open>\<^verbatim>\<open>strings.TrimLeftFunc\<close>: the string from its first rune that fails \<open>f\<close>.\<close>

fun TrimLeftFunc :: "(rune \<Rightarrow> bool) \<Rightarrow> string \<Rightarrow> string" where
  "TrimLeftFunc f [] = []"
| "TrimLeftFunc f (c # s) =
     (if f (fst (DecodeRuneInString (c # s)))
      then TrimLeftFunc f (drop (snd (DecodeRuneInString (c # s)) - 1) s)
      else c # s)"

text \<open>
  \<^verbatim>\<open>lastIndexFunc(s, f, false)\<close>: the index where the last rune that fails \<open>f\<close>
  starts, reading runes from the end; \<open>None\<close> for \<open>-1\<close>.
\<close>

function lastIndexFunc :: "(rune \<Rightarrow> bool) \<Rightarrow> string \<Rightarrow> nat option" where
  "lastIndexFunc f s =
     (if s = [] then None
      else
        (let i = length s - snd (DecodeLastRuneInString s)
         in if \<not> f (fst (DecodeLastRuneInString s)) then Some i
            else lastIndexFunc f (take i s)))"
  by pat_completeness auto


lemma last_rune_len_pos: "0 < last_rune_len t"
  by (induction t rule: last_rune_len.induct) auto

lemma DecodeLastRuneInString_pos: "s \<noteq> [] \<Longrightarrow> 0 < snd (DecodeLastRuneInString s)"
proof -
  assume ne: "s \<noteq> []"
  then obtain x0 t where r: "rev s = x0 # t" by (cases "rev s") auto
  have "0 < length (drop (length s - last_rune_len t) s)"
    using ne last_rune_len_pos [of t] by (cases s) auto
  then show ?thesis
    using r by (auto simp: DecodeLastRuneInString_def Let_def)
qed

termination lastIndexFunc
proof (relation "measure (\<lambda>(f, s). length s)")
  show "wf (measure (\<lambda>(f, s). length s))" by simp
next
  fix f :: "rune \<Rightarrow> bool" and s :: string and i
  assume "s \<noteq> []" and i: "i = length s - snd (DecodeLastRuneInString s)"
  then have "0 < snd (DecodeLastRuneInString s)" by (simp add: DecodeLastRuneInString_pos)
  with \<open>s \<noteq> []\<close> i show "((f, take i s), (f, s)) \<in> measure (\<lambda>(f, s). length s)"
    by (cases s) auto
qed

text \<open>
  \<^verbatim>\<open>strings.TrimRightFunc\<close>: the string up to the end of its last rune that fails
  \<open>f\<close>; the end is found by decoding forwards at the index \<open>lastIndexFunc\<close> gave.
\<close>

definition TrimRightFunc :: "(rune \<Rightarrow> bool) \<Rightarrow> string \<Rightarrow> string" where
  "TrimRightFunc f s =
     (case lastIndexFunc f s of
        None \<Rightarrow> []
      | Some i \<Rightarrow>
          if RuneSelf \<le> byte (s ! i) then take (i + snd (DecodeRuneInString (drop i s))) s
          else take (i + 1) s)"

definition TrimFunc :: "(rune \<Rightarrow> bool) \<Rightarrow> string \<Rightarrow> string" where
  "TrimFunc f s = TrimRightFunc f (TrimLeftFunc f s)"

text \<open>
  \<^verbatim>\<open>strings.TrimSpace\<close>. ASCII white space is skipped at the front; a byte of
  \<^verbatim>\<open>0x80\<close> or more hands the rest over to \<open>TrimFunc\<close>. Then the same from the end,
  where such a byte hands over to \<open>TrimRightFunc\<close>. \<open>TrimSpace_stop\<close> is the second
  scan; it gets the remaining string reversed, and gives the result reversed.
\<close>

fun TrimSpace_stop :: "string \<Rightarrow> string" where
  "TrimSpace_stop [] = []"
| "TrimSpace_stop (c # t) =
     (if RuneSelf \<le> byte c then rev (TrimRightFunc IsSpace (rev (c # t)))
      else if asciiSpace c then TrimSpace_stop t
      else c # t)"

fun TrimSpace :: "string \<Rightarrow> string" where
  "TrimSpace [] = []"
| "TrimSpace (c # s) =
     (if RuneSelf \<le> byte c then TrimFunc IsSpace (c # s)
      else if asciiSpace c then TrimSpace s
      else rev (TrimSpace_stop (rev (c # s))))"

text \<open>
  \<^verbatim>\<open>unicode.ToUpper\<close>: for ASCII the letters \<^verbatim>\<open>a\<close> to \<^verbatim>\<open>z\<close> lose \<^verbatim>\<open>0x20\<close>; for other
  runes the answer comes from the case tables of package unicode, which are not part
  of the relay: the table is the parameter \<open>tbl\<close>.
\<close>

definition unicode_ToUpper :: "(rune \<Rightarrow> rune) \<Rightarrow> rune \<Rightarrow> rune" where
  "unicode_ToUpper tbl r =
     (if r < 0x80 then (if 0x61 \<le> r \<and> r \<le> 0x7A then r - 0x20 else r) else tbl r)"

text \<open>
  \<^verbatim>\<open>strings.ToUpper\<close>: a string of ASCII bytes is mapped byte by byte; any other
  string goes through \<^verbatim>\<open>strings.Map(unicode.ToUpper, s)\<close>, which writes the mapped
  rune of every rune read (an ill-formed byte is read as \<open>RuneError\<close>).
\<close>

definition ToUpper :: "(rune \<Rightarrow> rune) \<Rightarrow> string \<Rightarrow> string" where
  "ToUpper tbl s =
     (if \<forall>c \<in> set s. byte c < RuneSelf
      then map (\<lambda>c. if 0x61 \<le> byte c \<and> byte c \<le> 0x7A then char_of (byte c - 0x20) else c) s
      else concat (map (\<lambda>(r, bs). EncodeRune (unicode_ToUpper tbl r)) (range_string s)))"

text \<open>The verb \<^verbatim>\<open>%d\<close> of \<^verbatim>\<open>fmt.Sprintf\<close> on an \<^verbatim>\<open>int64\<close>: decimal digits, with a minus sign.\<close>

fun digits :: "nat \<Rightarrow> string" where
  "digits n = (if n < 10 then [char_of (0x30 + n)] else digits (n div 10) @ [char_of (0x30 + n mod 10)])"

declare digits.simps [simp del]

definition FormatInt :: "int \<Rightarrow> string" where
  "FormatInt i = (if i < 0 then CHR ''-'' # digits (nat (- i)) else digits (nat i))"

section \<open>Names from a stream path and from a datagram\<close>

text \<open>
  The loop of \<^verbatim>\<open>splitTrim\<close> over the runes of \<open>s\<close>: \<open>out\<close> is the slice built so
  far and \<open>cur\<close> the builder's content.
\<close>

fun splitTrim_loop :: "(rune \<times> string) list \<Rightarrow> rune \<Rightarrow> string list \<Rightarrow> string \<Rightarrow> string list \<times> string" where
  "splitTrim_loop [] sep out cur = (out, cur)"
| "splitTrim_loop ((r, bs) # rs) sep out cur =
     (if r = sep then splitTrim_loop rs sep (out @ [Trim cur ''/ '']) []
      else splitTrim_loop rs sep out (cur @ EncodeRune r))"

definition splitTrim :: "string \<Rightarrow> rune \<Rightarrow> string list" where
  "splitTrim s0 sep =
     (let s = TrimSpace s0
      in if s = [] then []
         else
           (let (out, cur) = splitTrim_loop (range_string s) sep [] [];
                out = (if 0 < length cur then out @ [Trim cur ''/ ''] else out)
            in filter (\<lambda>p. p \<noteq> []) out))"

text \<open>
  The names \<^verbatim>\<open>HandleWebSocket\<close> takes from \<^verbatim>\<open>r.URL.Path\<close>; \<open>now\<close> is what
  \<^verbatim>\<open>time.Now().UnixNano()\<close> returned.
\<close>

definition ws_names :: "string \<Rightarrow> int \<Rightarrow> string \<times> string" where
  "ws_names urlpath now =
     (let path = TrimPrefix urlpath ''/ws'';
          parts = splitTrim path 0x2F;
          roomName = ''global'';
          username = ''anon-'' @ FormatInt now;
          roomName = (if 1 \<le> length parts \<and> parts ! 0 \<noteq> [] then parts ! 0 else roomName);
          username = (if 2 \<le> length parts \<and> parts ! 1 \<noteq> [] then parts ! 1 else username)
      in (roomName, username))"

text \<open>
  A path segment as a client would write it: not empty, ASCII, with no white space
  and no slash.
\<close>

definition segment :: "string \<Rightarrow> bool" where
  "segment x = (x \<noteq> [] \<and> (\<forall>c \<in> set x. byte c < RuneSelf \<and> \<not> asciiSpace c \<and> c \<noteq> CHR ''/''))"


text \<open>The body of the loop of \<^verbatim>\<open>parseUDPFrame\<close> over the parts of the header.\<close>

definition parse_part :: "(rune \<Rightarrow> rune) \<Rightarrow> string \<times> string \<Rightarrow> string \<Rightarrow> string \<times> string" where
  "parse_part tbl ru part =
     (let kv = SplitN (TrimSpace part) CHR '':'' 2
      in if length kv \<noteq> 2 then ru
         else
           (let k = ToUpper tbl (TrimSpace (kv ! 0));
                v = TrimSpace (kv ! 1)
            in if k = ''ROOM'' then (v, snd ru)
               else if k = ''USER'' then (fst ru, v)
               else ru))"

definition parseUDPFrame :: "(rune \<Rightarrow> rune) \<Rightarrow> string \<Rightarrow> string \<times> string \<times> string" where
  "parseUDPFrame tbl b =
     (let i = Index b CHR 0x0A
      in if 0 \<le> i then
           (let header = take (nat i) b;
                payload = drop (nat i + 1) b;
                ru = foldl (parse_part tbl) ([], []) (Split header CHR '';'')
            in (fst ru, snd ru, payload))
         else ([], [], b))"

text \<open>
  The names and the payload the datagram loop works with, after its defaults;
  \<open>now\<close> is what \<^verbatim>\<open>time.Now().UnixNano()\<close> returned.
\<close>

definition udp_names :: "(rune \<Rightarrow> rune) \<Rightarrow> string \<Rightarrow> int \<Rightarrow> string \<times> string \<times> string" where
  "udp_names tbl data now =
     (case parseUDPFrame tbl data of
        (roomName, username, payload) \<Rightarrow>
          (if roomName = [] then ''global'' else roomName,
           if username = [] then ''udp-'' @ FormatInt now else username,
           payload))"

text \<open>
  A string that \<^verbatim>\<open>strings.TrimSpace\<close> has nothing to take from: it is not empty and
  its first and its last byte are ASCII and not white space.
\<close>

definition trimmed :: "string \<Rightarrow> bool" where
  "trimmed s =
     (s \<noteq> [] \<and> byte (hd s) < RuneSelf \<and> \<not> asciiSpace (hd s)
      \<and> byte (last s) < RuneSelf \<and> \<not> asciiSpace (last s))"

text \<open>
  The header of the spec: pairs \<^verbatim>\<open>KEY:value\<close> with \<^verbatim>\<open>;\<close> between them. A key is
  a trimmed string without \<^verbatim>\<open>:\<close>, \<^verbatim>\<open>;\<close> and newline, a value a trimmed string
  without \<^verbatim>\<open>;\<close> and newline.
\<close>

definition header_pair :: "string \<times> string \<Rightarrow> bool" where
  "header_pair kv =
     (trimmed (fst kv) \<and> trimmed (snd kv)
      \<and> CHR '':'' \<notin> set (fst kv) \<and> CHR '';'' \<notin> set (fst kv @ snd kv)
      \<and> CHR 0x0A \<notin> set (fst kv @ snd kv))"

fun render_header :: "(string \<times> string) list \<Rightarrow> string" where
  "render_header [] = []"
| "render_header [kv] = fst kv @ CHR '':'' # snd kv"
| "render_header (kv # kvs) = fst kv @ CHR '':'' # snd kv @ CHR '';'' # render_header kvs"

text \<open>
  What the spec says a header means for the field \<open>key\<close> (\<^verbatim>\<open>ROOM\<close> or \<^verbatim>\<open>USER\<close>): the
  value of the last pair whose key is \<open>key\<close> when case is ignored, and nothing when
  there is no such pair.
\<close>

definition spec_field :: "(rune \<Rightarrow> rune) \<Rightarrow> string \<Rightarrow> (string \<times> string) list \<Rightarrow> string" where
  "spec_field tbl key kvs =
     (case filter (\<lambda>kv. ToUpper tbl (fst kv) = key) kvs of [] \<Rightarrow> [] | xs \<Rightarrow> snd (last xs))"

section \<open>The envelope\<close>

text \<open>
  \<^verbatim>\<open>type Envelope struct { Room string; Username string; Ts int64; Payload []byte }\<close>
  with the JSON keys \<^verbatim>\<open>room\<close>, \<^verbatim>\<open>username\<close>, \<^verbatim>\<open>ts\<close> and \<^verbatim>\<open>payload\<close>. A byte slice
  is \<open>None\<close> when it is nil (package json writes a nil slice as \<^verbatim>\<open>null\<close>).
\<close>

record Envelope =
  Room :: string
  Username :: string
  Ts :: int
  Payload :: "string option"

text \<open>
  How package json writes a string (\<^verbatim>\<open>appendString\<close> with HTML escaping, the default
  of \<^verbatim>\<open>json.Marshal\<close>). \<open>htmlSafe\<close> is the table \<^verbatim>\<open>htmlSafeSet\<close>: the ASCII bytes
  from \<^verbatim>\<open>0x20\<close> on that are written as they are.
\<close>

definition htmlSafe :: "char \<Rightarrow> bool" where
  "htmlSafe c = (0x20 \<le> byte c \<and> byte c < 0x80 \<and> byte c \<notin> {0x22, 0x26, 0x3C, 0x3E, 0x5C})"

definition hex :: "nat \<Rightarrow> char" where
  "hex n = (''0123456789abcdef'' ! (n mod 16))"

definition json_escape :: "char \<Rightarrow> string" where
  "json_escape c =
     (if c = CHR 0x5C \<or> c = CHR 0x22 then [CHR 0x5C, c]
      else if c = CHR 0x08 then [CHR 0x5C, CHR ''b'']
      else if c = CHR 0x0C then [CHR 0x5C, CHR ''f'']
      else if c = CHR 0x0A then [CHR 0x5C, CHR ''n'']
      else if c = CHR 0x0D then [CHR 0x5C, CHR ''r'']
      else if c = CHR 0x09 then [CHR 0x5C, CHR ''t'']
      else [CHR 0x5C, CHR ''u'', CHR ''0'', CHR ''0'', hex (byte c div 16), hex (byte c mod 16)])"

text \<open>
  The bytes between the quotes. An ill-formed byte is written as the escape of
  \<^verbatim>\<open>U+FFFD\<close>; \<^verbatim>\<open>U+2028\<close> and \<^verbatim>\<open>U+2029\<close> are escaped; every other rune is copied.
\<close>

fun json_string_body :: "string \<Rightarrow> string" where
  "json_string_body [] = []"
| "json_string_body (c # s) =
     (if byte c < RuneSelf then
        (if htmlSafe c then [c] else json_escape c) @ json_string_body s
      else
        (let r = fst (DecodeRuneInString (c # s)); size = snd (DecodeRuneInString (c # s))
         in if r = RuneError \<and> size = 1 then
              (CHR 0x5C # ''ufffd'') @ json_string_body s
            else if r = 0x2028 \<or> r = 0x2029 then
              (CHR 0x5C # ''u202'') @ [hex (r mod 16)] @ json_string_body (drop (size - 1) s)
            else take size (c # s) @ json_string_body (drop (size - 1) s)))"

definition json_string :: "string \<Rightarrow> string" where
  "json_string s = [CHR 0x22] @ json_string_body s @ [CHR 0x22]"

text \<open>\<^verbatim>\<open>base64.StdEncoding\<close>, with padding: how package json writes a byte slice.\<close>

definition b64_char :: "nat \<Rightarrow> char" where
  "b64_char n =
     (if n < 26 then char_of (0x41 + n)
      else if n < 52 then char_of (0x61 + (n - 26))
      else if n < 62 then char_of (0x30 + (n - 52))
      else if n = 62 then CHR ''+''
      else CHR ''/'')"

fun base64_encode :: "string \<Rightarrow> string" where
  "base64_encode [] = []"
| "base64_encode [a] =
     [b64_char (byte a div 4), b64_char ((byte a mod 4) * 16), CHR ''='', CHR ''='']"
| "base64_encode [a, b] =
     [b64_char (byte a div 4), b64_char ((byte a mod 4) * 16 + byte b div 16),
      b64_char ((byte b mod 16) * 4), CHR ''='']"
| "base64_encode (a # b # c # s) =
     [b64_char (byte a div 4), b64_char ((byte a mod 4) * 16 + byte b div 16),
      b64_char ((byte b mod 16) * 4 + byte c div 64), b64_char (byte c mod 64)]
     @ base64_encode s"

definition json_bytes :: "string option \<Rightarrow> string" where
  "json_bytes p = (case p of None \<Rightarrow> ''null'' | Some bs \<Rightarrow> [CHR 0x22] @ base64_encode bs @ [CHR 0x22])"

text \<open>\<^verbatim>\<open>json.Marshal\<close> of an \<open>Envelope\<close>: the fields in the order of the struct.\<close>

definition json_Marshal :: "Envelope \<Rightarrow> string" where
  "json_Marshal env =
     ''{'' @ json_string ''room'' @ '':'' @ json_string (Room env)
     @ '','' @ json_string ''username'' @ '':'' @ json_string (Username env)
     @ '','' @ json_string ''ts'' @ '':'' @ FormatInt (Ts env)
     @ '','' @ json_string ''payload'' @ '':'' @ json_bytes (Payload env) @ ''}''"

text \<open>
  \<^verbatim>\<open>MarshalEnvelope\<close>; \<open>now\<close> is what \<^verbatim>\<open>time.Now().UnixNano()\<close> returned. The
  error of \<^verbatim>\<open>json.Marshal\<close> is dropped by the source; a struct of strings, an
  integer and a byte slice never gives one.
\<close>

definition MarshalEnvelope :: "string \<Rightarrow> string \<Rightarrow> int \<Rightarrow> string option \<Rightarrow> string" where
  "MarshalEnvelope room user now payload =
     json_Marshal \<lparr>Room = room, Username = user, Ts = now, Payload = payload\<rparr>"

section \<open>Reading an envelope back\<close>

text \<open>
  \<^verbatim>\<open>json.Unmarshal(msg, &env)\<close>, as the receiving side calls it. Package json
  first checks that the whole input is one JSON value, then stores the value into
  the struct. A JSON value:
\<close>

datatype json =
    JNull
  | JBool bool
  | JNumber string
  | JString string
  | JArray "json list"
  | JObject "(string \<times> json) list"

datatype decode_error = SyntaxError | UnmarshalTypeError | CorruptInputError

definition is_ws :: "char \<Rightarrow> bool" where
  "is_ws c = (c = CHR 0x20 \<or> c = CHR 0x09 \<or> c = CHR 0x0D \<or> c = CHR 0x0A)"

definition skip_ws :: "string \<Rightarrow> string" where
  "skip_ws s = dropWhile is_ws s"

definition is_digit :: "char \<Rightarrow> bool" where
  "is_digit c = (0x30 \<le> byte c \<and> byte c \<le> 0x39)"

text \<open>The value of a hexadecimal digit, and \<^verbatim>\<open>getu4\<close> on the four digits after \<^verbatim>\<open>\u\<close>.\<close>

definition hexval :: "char \<Rightarrow> nat option" where
  "hexval c =
     (if 0x30 \<le> byte c \<and> byte c \<le> 0x39 then Some (byte c - 0x30)
      else if 0x61 \<le> byte c \<and> byte c \<le> 0x66 then Some (byte c - 0x61 + 10)
      else if 0x41 \<le> byte c \<and> byte c \<le> 0x46 then Some (byte c - 0x41 + 10)
      else None)"

definition hex4 :: "char \<Rightarrow> char \<Rightarrow> char \<Rightarrow> char \<Rightarrow> rune option" where
  "hex4 h1 h2 h3 h4 =
     (case (hexval h1, hexval h2, hexval h3, hexval h4) of
        (Some a, Some b, Some c, Some d) \<Rightarrow> Some (((a * 16 + b) * 16 + c) * 16 + d)
      | _ \<Rightarrow> None)"

text \<open>\<^verbatim>\<open>utf16.IsSurrogate\<close> and \<^verbatim>\<open>utf16.DecodeRune\<close>.\<close>

definition IsSurrogate :: "rune \<Rightarrow> bool" where
  "IsSurrogate r = (0xD800 \<le> r \<and> r < 0xE000)"

definition utf16_DecodeRune :: "rune \<Rightarrow> rune \<Rightarrow> rune" where
  "utf16_DecodeRune r1 r2 =
     (if 0xD800 \<le> r1 \<and> r1 < 0xDC00 \<and> 0xDC00 \<le> r2 \<and> r2 < 0xE000
      then (r1 - 0xD800) * 0x400 + (r2 - 0xDC00) + 0x10000
      else RuneError)"

text \<open>The escapes of one character that a JSON string may have.\<close>

definition simple_escape :: "char \<Rightarrow> char option" where
  "simple_escape e =
     (if e = CHR 0x22 \<or> e = CHR 0x5C \<or> e = CHR ''/'' then Some e
      else if e = CHR ''b'' then Some (CHR 0x08)
      else if e = CHR ''f'' then Some (CHR 0x0C)
      else if e = CHR ''n'' then Some (CHR 0x0A)
      else if e = CHR ''r'' then Some (CHR 0x0D)
      else if e = CHR ''t'' then Some (CHR 0x09)
      else None)"

definition emit :: "string \<Rightarrow> (string \<times> string) option \<Rightarrow> (string \<times> string) option" where
  "emit x res = (case res of None \<Rightarrow> None | Some (t, rest) \<Rightarrow> Some (x @ t, rest))"

text \<open>
  A string literal, read from after its opening quote: the unquoted bytes and what
  follows the closing quote, or \<open>None\<close> when the literal is not a JSON string (no
  closing quote, a byte below \<^verbatim>\<open>0x20\<close>, a bad escape). This is the scanner's check and
  \<^verbatim>\<open>unquoteBytes\<close> in one pass: an escaped surrogate that is not followed by the
  escape of its other half becomes \<^verbatim>\<open>U+FFFD\<close>, and bytes that are not well-formed
  UTF-8 become \<^verbatim>\<open>U+FFFD\<close> as well.
\<close>

fun unquote :: "string \<Rightarrow> (string \<times> string) option" where
  "unquote [] = None"
| "unquote (c # s) =
     (if c = CHR 0x22 then Some ([], s)
      else if c = CHR 0x5C then
        (case s of
           [] \<Rightarrow> None
         | e # s1 \<Rightarrow>
             if e = CHR ''u'' then
               (case s1 of
                  h1 # h2 # h3 # h4 # s2 \<Rightarrow>
                    (case hex4 h1 h2 h3 h4 of
                       None \<Rightarrow> None
                     | Some rr \<Rightarrow>
                         if IsSurrogate rr then
                           (case s2 of
                              b # u # g1 # g2 # g3 # g4 # s3 \<Rightarrow>
                                (case hex4 g1 g2 g3 g4 of
                                   None \<Rightarrow> emit (EncodeRune RuneError) (unquote s2)
                                 | Some rr1 \<Rightarrow>
                                     if b = CHR 0x5C \<and> u = CHR ''u''
                                        \<and> utf16_DecodeRune rr rr1 \<noteq> RuneError
                                     then emit (EncodeRune (utf16_DecodeRune rr rr1)) (unquote s3)
                                     else emit (EncodeRune RuneError) (unquote s2))
                            | _ \<Rightarrow> emit (EncodeRune RuneError) (unquote s2))
                         else emit (EncodeRune rr) (unquote s2))
                | _ \<Rightarrow> None)
             else
               (case simple_escape e of
                  None \<Rightarrow> None
                | Some x \<Rightarrow> emit [x] (unquote s1)))
      else if byte c < 0x20 then None
      else if byte c < RuneSelf then emit [c] (unquote s)
      else emit (EncodeRune (fst (DecodeRuneInString (c # s))))
             (unquote (drop (snd (DecodeRuneInString (c # s)) - 1) s)))"


declare unquote.simps [simp del]

text \<open>
  A number literal (\<^verbatim>\<open>-\<close>, integer part, fraction, exponent): its text and what
  follows. \<open>lex_digits1\<close> reads at least one digit.
\<close>

definition lex_digits1 :: "string \<Rightarrow> (string \<times> string) option" where
  "lex_digits1 s =
     (if takeWhile is_digit s = [] then None else Some (takeWhile is_digit s, dropWhile is_digit s))"

definition lex_int :: "string \<Rightarrow> (string \<times> string) option" where
  "lex_int s =
     (case s of
        [] \<Rightarrow> None
      | c # r \<Rightarrow>
          if c = CHR ''0'' then Some ([c], r)
          else if is_digit c then Some (c # takeWhile is_digit r, dropWhile is_digit r)
          else None)"

definition lex_frac :: "string \<Rightarrow> (string \<times> string) option" where
  "lex_frac s =
     (case s of
        c # r \<Rightarrow>
          if c = CHR ''.'' then
            (case lex_digits1 r of None \<Rightarrow> None | Some (ds, rest) \<Rightarrow> Some (c # ds, rest))
          else Some ([], s)
      | [] \<Rightarrow> Some ([], s))"

definition lex_exp :: "string \<Rightarrow> (string \<times> string) option" where
  "lex_exp s =
     (case s of
        c # r \<Rightarrow>
          if c = CHR ''e'' \<or> c = CHR ''E'' then
            (case r of
               g # r1 \<Rightarrow>
                 if g = CHR ''+'' \<or> g = CHR ''-'' then
                   (case lex_digits1 r1 of None \<Rightarrow> None | Some (ds, rest) \<Rightarrow> Some (c # g # ds, rest))
                 else
                   (case lex_digits1 r of None \<Rightarrow> None | Some (ds, rest) \<Rightarrow> Some (c # ds, rest))
             | [] \<Rightarrow> None)
          else Some ([], s)
      | [] \<Rightarrow> Some ([], s))"

definition lex_number :: "string \<Rightarrow> (string \<times> string) option" where
  "lex_number s =
     (let sign = (case s of c # r \<Rightarrow> if c = CHR ''-'' then [c] else [] | [] \<Rightarrow> [])
      in case lex_int (drop (length sign) s) of
           None \<Rightarrow> None
         | Some (i, r1) \<Rightarrow>
             (case lex_frac r1 of
                None \<Rightarrow> None
              | Some (f, r2) \<Rightarrow>
                  (case lex_exp r2 of
                     None \<Rightarrow> None
                   | Some (e, r3) \<Rightarrow> Some (sign @ i @ f @ e, r3))))"

text \<open>
  A JSON value from the start of \<open>s\<close> (no white space in front), and what follows
  it. The first argument bounds the depth of nesting and the number of members;
  \<open>json_parse\<close> starts with more than the length of the input, which is never used
  up, since every level reads at least one byte. \<open>parse_elems\<close> reads the elements
  of an array that is not empty up to its \<^verbatim>\<open>]\<close>, \<open>parse_membs\<close> the members of an
  object that is not empty up to its \<^verbatim>\<open>}\<close>.
\<close>

fun parse_value :: "nat \<Rightarrow> string \<Rightarrow> (json \<times> string) option"
  and parse_elems :: "nat \<Rightarrow> string \<Rightarrow> (json list \<times> string) option"
  and parse_membs :: "nat \<Rightarrow> string \<Rightarrow> ((string \<times> json) list \<times> string) option" where
  "parse_value 0 s = None"
| "parse_value (Suc n) s =
     (case s of
        [] \<Rightarrow> None
      | c # r \<Rightarrow>
          if c = CHR 0x22 then
            (case unquote r of None \<Rightarrow> None | Some (t, rest) \<Rightarrow> Some (JString t, rest))
          else if c = CHR ''{'' then
            (case skip_ws r of
               [] \<Rightarrow> None
             | d # r1 \<Rightarrow>
                 if d = CHR ''}'' then Some (JObject [], r1)
                 else (case parse_membs n (d # r1) of
                         None \<Rightarrow> None
                       | Some (ms, rest) \<Rightarrow> Some (JObject ms, rest)))
          else if c = CHR ''['' then
            (case skip_ws r of
               [] \<Rightarrow> None
             | d # r1 \<Rightarrow>
                 if d = CHR '']'' then Some (JArray [], r1)
                 else (case parse_elems n (d # r1) of
                         None \<Rightarrow> None
                       | Some (vs, rest) \<Rightarrow> Some (JArray vs, rest)))
          else if take 4 s = ''true'' then Some (JBool True, drop 4 s)
          else if take 5 s = ''false'' then Some (JBool False, drop 5 s)
          else if take 4 s = ''null'' then Some (JNull, drop 4 s)
          else (case lex_number s of
                  None \<Rightarrow> None
                | Some (lit, rest) \<Rightarrow> Some (JNumber lit, rest)))"
| "parse_elems 0 s = None"
| "parse_elems (Suc n) s =
     (case parse_value n s of
        None \<Rightarrow> None
      | Some (v, rest) \<Rightarrow>
          (case skip_ws rest of
             [] \<Rightarrow> None
           | d # r \<Rightarrow>
               if d = CHR '','' then
                 (case parse_elems n (skip_ws r) of
                    None \<Rightarrow> None
                  | Some (vs, rest1) \<Rightarrow> Some (v # vs, rest1))
               else if d = CHR '']'' then Some ([v], r)
               else None))"
| "parse_membs 0 s = None"
| "parse_membs (Suc n) s =
     (case s of
        [] \<Rightarrow> None
      | q # r \<Rightarrow>
          if q \<noteq> CHR 0x22 then None
          else
            (case unquote r of
               None \<Rightarrow> None
             | Some (k, rest) \<Rightarrow>
                 (case skip_ws rest of
                    [] \<Rightarrow> None
                  | c # r1 \<Rightarrow>
                      if c \<noteq> CHR '':'' then None
                      else
                        (case parse_value n (skip_ws r1) of
                           None \<Rightarrow> None
                         | Some (v, rest1) \<Rightarrow>
                             (case skip_ws rest1 of
                                [] \<Rightarrow> None
                              | d # r2 \<Rightarrow>
                                  if d = CHR '','' then
                                    (case parse_membs n (skip_ws r2) of
                                       None \<Rightarrow> None
                                     | Some (ms, rest2) \<Rightarrow> Some ((k, v) # ms, rest2))
                                  else if d = CHR ''}'' then Some ([(k, v)], r2)
                                  else None)))))"

definition json_parse :: "string \<Rightarrow> json option" where
  "json_parse s =
     (case parse_value (Suc (length s)) (skip_ws s) of
        None \<Rightarrow> None
      | Some (v, rest) \<Rightarrow> if skip_ws rest = [] then Some v else None)"

text \<open>
  \<^verbatim>\<open>base64.StdEncoding\<close> the other way: line breaks are skipped, every group of
  four characters gives three bytes, and the last group may end in one or two \<^verbatim>\<open>=\<close>.
\<close>

definition b64_val :: "char \<Rightarrow> nat option" where
  "b64_val c =
     (if 0x41 \<le> byte c \<and> byte c \<le> 0x5A then Some (byte c - 0x41)
      else if 0x61 \<le> byte c \<and> byte c \<le> 0x7A then Some (byte c - 0x61 + 26)
      else if 0x30 \<le> byte c \<and> byte c \<le> 0x39 then Some (byte c - 0x30 + 52)
      else if c = CHR ''+'' then Some 62
      else if c = CHR ''/'' then Some 63
      else None)"

fun base64_groups :: "string \<Rightarrow> string option" where
  "base64_groups (a # b # c # d # rest) =
     (case (b64_val a, b64_val b) of
        (Some x, Some y) \<Rightarrow>
          if c = CHR ''='' \<and> d = CHR ''='' \<and> rest = [] then Some [char_of (x * 4 + y div 16)]
          else
            (case b64_val c of
               None \<Rightarrow> None
             | Some z \<Rightarrow>
                 if d = CHR ''='' \<and> rest = [] then
                   Some [char_of (x * 4 + y div 16), char_of ((y mod 16) * 16 + z div 4)]
                 else
                   (case b64_val d of
                      None \<Rightarrow> None
                    | Some w \<Rightarrow>
                        (case base64_groups rest of
                           None \<Rightarrow> None
                         | Some bs \<Rightarrow>
                             Some (char_of (x * 4 + y div 16)
                                   # char_of ((y mod 16) * 16 + z div 4)
                                   # char_of ((z mod 4) * 64 + w) # bs))))
      | _ \<Rightarrow> None)"
| "base64_groups [] = Some []"
| "base64_groups s = None"

definition base64_decode :: "string \<Rightarrow> string option" where
  "base64_decode s = base64_groups (filter (\<lambda>c. c \<noteq> CHR 0x0D \<and> c \<noteq> CHR 0x0A) s)"

text \<open>
  \<^verbatim>\<open>strconv.ParseInt(lit, 10, 64)\<close> on a number literal: digits after an optional
  \<^verbatim>\<open>-\<close>, and a value that fits 64 bits.
\<close>

definition parse_int64 :: "string \<Rightarrow> int option" where
  "parse_int64 lit =
     (let neg = (case lit of c # r \<Rightarrow> c = CHR ''-'' | [] \<Rightarrow> False);
          ds = (if neg then tl lit else lit);
          v = int (foldl (\<lambda>a c. 10 * a + (byte c - 0x30)) 0 ds);
          v = (if neg then - v else v)
      in if ds = [] \<or> \<not> list_all is_digit ds then None
         else if - (2 ^ 63) \<le> v \<and> v < 2 ^ 63 then Some v
         else None)"

text \<open>
  The name of a JSON key when case is ignored (\<^verbatim>\<open>foldName\<close>): ASCII letters in
  upper case; for other runes the least rune of the same case orbit, which comes
  from the tables of package unicode: the parameter \<open>ftbl\<close>.
\<close>

definition foldName :: "(rune \<Rightarrow> rune) \<Rightarrow> string \<Rightarrow> string" where
  "foldName ftbl s =
     concat (map (\<lambda>(r, bs).
        if r < RuneSelf then [char_of (if 0x61 \<le> r \<and> r \<le> 0x7A then r - 0x20 else r)]
        else EncodeRune (ftbl r)) (range_string s))"

text \<open>The field a key stands for: the exact name first, then the name with case ignored.\<close>

definition field_of :: "(rune \<Rightarrow> rune) \<Rightarrow> string \<Rightarrow> string option" where
  "field_of ftbl key =
     (if key \<in> set [''room'', ''username'', ''ts'', ''payload''] then Some key
      else find (\<lambda>f. foldName ftbl f = foldName ftbl key) [''room'', ''username'', ''ts'', ''payload''])"

definition save_error :: "decode_error \<Rightarrow> decode_error option \<Rightarrow> decode_error option" where
  "save_error e old = (case old of None \<Rightarrow> Some e | Some e0 \<Rightarrow> Some e0)"

text \<open>
  An element of a JSON array stored into a byte that held \<open>old\<close>: the byte
  afterwards, and whether the store went without an error. A number literal that
  is an integer from 0 to 255 is stored; \<^verbatim>\<open>null\<close> is ignored for a byte, which keeps
  its value, with no error; anything else is a type error and leaves the byte as
  it is.
\<close>

definition json_uint8 :: "char \<Rightarrow> json \<Rightarrow> char \<times> bool" where
  "json_uint8 old v =
     (case v of
        JNumber lit \<Rightarrow>
          (if lit \<noteq> [] \<and> list_all is_digit lit
              \<and> foldl (\<lambda>a c. 10 * a + (byte c - 0x30)) 0 lit < 256
           then (char_of (foldl (\<lambda>a c. 10 * a + (byte c - 0x30)) 0 lit), True)
           else (old, False))
      | JNull \<Rightarrow> (old, True)
      | _ \<Rightarrow> (old, False))"

text \<open>
  A JSON array stored into the byte slice \<open>old\<close>: the decoder writes element \<open>i\<close>
  into \<open>old[i]\<close>, extends the slice by a zero byte when \<open>i\<close> is past its length, and
  cuts it to the number of elements at the end. (The slice is taken with its
  capacity equal to its length, so that the bytes it is extended by are new.)
\<close>

definition store_array :: "string \<Rightarrow> json list \<Rightarrow> (char \<times> bool) list" where
  "store_array old vs =
     map (\<lambda>ie. json_uint8 (if fst ie < length old then old ! fst ie else CHR 0x00) (snd ie))
         (enumerate 0 vs)"

text \<open>
  One member of the object stored into the struct: a string into \<open>Room\<close> and
  \<open>Username\<close>, an integer into \<open>Ts\<close>, a string in base64 (or an array of bytes) into
  \<open>Payload\<close>; \<^verbatim>\<open>null\<close> leaves a string or an integer as it is and makes the slice nil;
  a value of another kind is a type error and leaves the field as it is. The first
  error is kept and the next member is read.
\<close>

definition store_member ::
  "(rune \<Rightarrow> rune) \<Rightarrow> Envelope \<times> decode_error option \<Rightarrow> string \<times> json \<Rightarrow> Envelope \<times> decode_error option" where
  "store_member ftbl st kv =
     (let env = fst st; err = snd st; v = snd kv
      in case field_of ftbl (fst kv) of
           None \<Rightarrow> st
         | Some f \<Rightarrow>
             if f = ''room'' then
               (case v of JString x \<Rightarrow> (env\<lparr>Room := x\<rparr>, err) | JNull \<Rightarrow> st
                | _ \<Rightarrow> (env, save_error UnmarshalTypeError err))
             else if f = ''username'' then
               (case v of JString x \<Rightarrow> (env\<lparr>Username := x\<rparr>, err) | JNull \<Rightarrow> st
                | _ \<Rightarrow> (env, save_error UnmarshalTypeError err))
             else if f = ''ts'' then
               (case v of
                  JNumber lit \<Rightarrow>
                    (case parse_int64 lit of
                       Some i \<Rightarrow> (env\<lparr>Ts := i\<rparr>, err)
                     | None \<Rightarrow> (env, save_error UnmarshalTypeError err))
                | JNull \<Rightarrow> st
                | _ \<Rightarrow> (env, save_error UnmarshalTypeError err))
             else
               (case v of
                  JString x \<Rightarrow>
                    (case base64_decode x of
                       Some bs \<Rightarrow> (env\<lparr>Payload := Some bs\<rparr>, err)
                     | None \<Rightarrow> (env, save_error CorruptInputError err))
                | JNull \<Rightarrow> (env\<lparr>Payload := None\<rparr>, err)
                | JArray vs \<Rightarrow>
                    (let bs = store_array (case Payload env of Some old \<Rightarrow> old | None \<Rightarrow> []) vs
                     in (env\<lparr>Payload := Some (map fst bs)\<rparr>,
                         if list_all snd bs then err else save_error UnmarshalTypeError err))
                | _ \<Rightarrow> (env, save_error UnmarshalTypeError err)))"

text \<open>
  \<^verbatim>\<open>json.Unmarshal(data, &env)\<close>: the struct afterwards and the error returned. Input
  that is not JSON leaves the struct as it was.
\<close>

definition json_Unmarshal ::
  "(rune \<Rightarrow> rune) \<Rightarrow> string \<Rightarrow> Envelope \<Rightarrow> Envelope \<times> decode_error option" where
  "json_Unmarshal ftbl data env =
     (case json_parse data of
        None \<Rightarrow> (env, Some SyntaxError)
      | Some JNull \<Rightarrow> (env, None)
      | Some (JObject ms) \<Rightarrow> foldl (store_member ftbl) (env, None) ms
      | Some _ \<Rightarrow> (env, Some UnmarshalTypeError))"

text \<open>\<^verbatim>\<open>var env Envelope\<close>: the zero value.\<close>

definition zero_Envelope :: Envelope where
  "zero_Envelope = \<lparr>Room = [], Username = [], Ts = 0, Payload = None\<rparr>"

text \<open>
  What a Go string becomes when it is coerced to valid UTF-8, every ill-formed byte
  replaced by \<^verbatim>\<open>U+FFFD\<close>; and \<^verbatim>\<open>utf8.ValidString\<close>.
\<close>

fun coerce_utf8 :: "string \<Rightarrow> string" where
  "coerce_utf8 [] = []"
| "coerce_utf8 (c # s) =
     (if fst (DecodeRuneInString (c # s)) = RuneError \<and> snd (DecodeRuneInString (c # s)) = 1
      then EncodeRune RuneError
      else take (snd (DecodeRuneInString (c # s))) (c # s))
     @ coerce_utf8 (drop (snd (DecodeRuneInString (c # s)) - 1) s)"

fun ValidString :: "string \<Rightarrow> bool" where
  "ValidString [] = True"
| "ValidString (c # s) =
     (\<not> (fst (DecodeRuneInString (c # s)) = RuneError \<and> snd (DecodeRuneInString (c # s)) = 1)
      \<and> ValidString (drop (snd (DecodeRuneInString (c # s)) - 1) s))"

text \<open>The values of an \<^verbatim>\<open>int64\<close>.\<close>

definition is_int64 :: "int \<Rightarrow> bool" where
  "is_int64 i = (- (2 ^ 63) \<le> i \<and> i < 2 ^ 63)"

section \<open>Channels, clients and rooms\<close>

text \<open>
  A Go string and a byte slice are both sequences of bytes: \<open>string\<close> (a list of
  8-bit characters). A pointer \<^verbatim>\<open>*Client\<close> or \<^verbatim>\<open>*Room\<close> is an address;
  two pointers are the same instance exactly when the addresses are equal.
\<close>

type_synonym client_ref = nat
type_synonym room_ref = nat

datatype panic = SendOnClosedChannel | CloseOfClosedChannel

text \<open>
  A buffered channel of byte slices (\<^verbatim>\<open>make(chan []byte, 256)\<close>): the pending
  items, the capacity, and whether \<^verbatim>\<open>close\<close> has been called.
\<close>

record chan =
  buf :: "string list"
  cap :: nat
  closed :: bool

definition make_chan :: "nat \<Rightarrow> chan" where
  "make_chan n = \<lparr>buf = [], cap = n, closed = False\<rparr>"

text \<open>
  \<^verbatim>\<open>select { case ch <- msg: default: }\<close>: a send on a closed channel panics;
  otherwise the send is taken when the buffer has room, and the default branch
  (nothing happens) is taken when it is full. No branch waits.
\<close>

definition try_send :: "chan \<Rightarrow> string \<Rightarrow> panic + chan" where
  "try_send ch msg =
     (if closed ch then Inl SendOnClosedChannel
      else if length (buf ch) < cap ch then Inr (ch\<lparr>buf := buf ch @ [msg]\<rparr>)
      else Inr ch)"

text \<open>\<^verbatim>\<open>close(ch)\<close>: closing a closed channel panics.\<close>

definition close_chan :: "chan \<Rightarrow> panic + chan" where
  "close_chan ch = (if closed ch then Inl CloseOfClosedChannel else Inr (ch\<lparr>closed := True\<rparr>))"

text \<open>
  What a non-blocking offer does to an open queue: the message is appended when
  there is room and the queue is left as it was when it is full.
\<close>

definition offer :: "chan \<Rightarrow> string \<Rightarrow> chan" where
  "offer ch msg = (if length (buf ch) < cap ch then ch\<lparr>buf := buf ch @ [msg]\<rparr> else ch)"

text \<open>
  \<^verbatim>\<open>type Client struct { username string; room *Room; conn *websocket.Conn; sendCh chan []byte }\<close>.
  The connection is the transport's and has no part in the room logic. Every
  client is given a channel of its own when it is created, so the channel is kept
  in the client's record.
\<close>

record Client =
  username :: string
  room :: room_ref
  sendCh :: chan

text \<open>\<^verbatim>\<open>type Room struct { name string; mu sync.RWMutex; clients map[*Client]bool }\<close>\<close>

record Room =
  name :: string
  clients :: "(client_ref, bool) fmap"

text \<open>The client heap: what each \<^verbatim>\<open>*Client\<close> points to.\<close>

type_synonym client_heap = "client_ref \<Rightarrow> Client"

definition join :: "Room \<Rightarrow> client_ref \<Rightarrow> Room" where
  "join r c = r\<lparr>clients := fmupd c True (clients r)\<rparr>"

definition leave :: "Room \<Rightarrow> client_ref \<Rightarrow> Room" where
  "leave r c = r\<lparr>clients := fmdrop c (clients r)\<rparr>"

text \<open>\<^verbatim>\<open>len(r.clients)\<close>: the membership count.\<close>

definition member_count :: "Room \<Rightarrow> nat" where
  "member_count r = fcard (fmdom (clients r))"

text \<open>
  Go leaves the order in which \<^verbatim>\<open>range\<close> visits the keys of a map open: each key
  is visited once, in an order the runtime picks. \<open>range_order m ks\<close> says that \<open>ks\<close>
  is such an order for the map \<open>m\<close>.
\<close>

definition range_order :: "('k, 'v) fmap \<Rightarrow> 'k list \<Rightarrow> bool" where
  "range_order m ks = (distinct ks \<and> fset_of_list ks = fmdom m)"

text \<open>
  The loop of \<^verbatim>\<open>Room.broadcast\<close> over the keys in the order \<open>ks\<close>; \<open>sender\<close> is
  \<open>None\<close> for a nil pointer. A panic ends the loop where it happens.
\<close>

fun broadcast_loop ::
  "client_ref list \<Rightarrow> client_ref option \<Rightarrow> string \<Rightarrow> client_heap \<Rightarrow> panic + client_heap" where
  "broadcast_loop [] sender msg h = Inr h"
| "broadcast_loop (c # ks) sender msg h =
     (if Some c \<noteq> sender then
        (case try_send (sendCh (h c)) msg of
           Inl p \<Rightarrow> Inl p
         | Inr ch \<Rightarrow> broadcast_loop ks sender msg (h(c := (h c)\<lparr>sendCh := ch\<rparr>)))
      else broadcast_loop ks sender msg h)"

text \<open>
  \<^verbatim>\<open>Room.broadcast\<close>, with the order \<open>ks\<close> in which \<^verbatim>\<open>range r.clients\<close> runs as
  an argument. The result is \<open>None\<close> when \<open>ks\<close> is not an order of the room's map
  (no run of the code is like that), and otherwise what the call does: a panic, or
  the client heap after the call returned.
\<close>

definition broadcast ::
  "Room \<Rightarrow> client_ref list \<Rightarrow> client_ref option \<Rightarrow> string \<Rightarrow> client_heap
     \<Rightarrow> (panic + client_heap) option" where
  "broadcast r ks sender msg h =
     (if range_order (clients r) ks then Some (broadcast_loop ks sender msg h) else None)"

text \<open>Whether a client is among the keys of a room's map.\<close>

definition is_member :: "Room \<Rightarrow> client_ref \<Rightarrow> bool" where
  "is_member r c = (c |\<in>| fmdom (clients r))"

section \<open>The hub\<close>

text \<open>
  \<^verbatim>\<open>type Hub struct { mu sync.RWMutex; rooms map[string]*Room }\<close> with the rooms it
  points to. A new room is allocated at the next free address.
\<close>

record Hub =
  rooms :: "(string, room_ref) fmap"
  room_heap :: "room_ref \<Rightarrow> Room"
  next_room :: room_ref

definition new_room :: "string \<Rightarrow> Room" where
  "new_room n = \<lparr>name = n, clients = fmempty\<rparr>"

definition NewHub :: Hub where
  "NewHub = \<lparr>rooms = fmempty, room_heap = (\<lambda>_. new_room []), next_room = 0\<rparr>"

definition getRoom :: "Hub \<Rightarrow> string \<Rightarrow> room_ref \<times> Hub" where
  "getRoom h n =
     (case fmlookup (rooms h) n of
        Some r \<Rightarrow> (r, h)
      | None \<Rightarrow>
          (let r = next_room h
           in (r, h\<lparr>rooms := fmupd n r (rooms h),
                    room_heap := (room_heap h)(r := new_room n),
                    next_room := Suc r\<rparr>)))"

text \<open>A run of calls of \<^verbatim>\<open>getRoom\<close>, one after the other (the mutex serialises them).\<close>

fun getRooms :: "Hub \<Rightarrow> string list \<Rightarrow> Hub" where
  "getRooms h [] = h"
| "getRooms h (n # ns) = getRooms (snd (getRoom h n)) ns"

definition room_update :: "Hub \<Rightarrow> room_ref \<Rightarrow> (Room \<Rightarrow> Room) \<Rightarrow> Hub" where
  "room_update h r f = h\<lparr>room_heap := (room_heap h)(r := f (room_heap h r))\<rparr>"

section \<open>The datagram bridge\<close>

text \<open>
  \<^verbatim>\<open>type peer struct { addr *net.UDPAddr; last time.Time }\<close> and the registry
  \<^verbatim>\<open>rooms = map[string]map[string]*peer{}\<close> of \<^verbatim>\<open>StartUDPRelay\<close>. An address is an
  IP and a port; a time is its \<^verbatim>\<open>UnixNano\<close>.
\<close>

type_synonym UDPAddr = "string \<times> nat"

record peer =
  addr :: UDPAddr
  last_seen :: int

type_synonym peer_table = "(string, (string, peer) fmap) fmap"

text \<open>The peers of a room: \<^verbatim>\<open>rooms[roomName]\<close>, an empty map when the room has none.\<close>

definition room_peers :: "peer_table \<Rightarrow> string \<Rightarrow> (string, peer) fmap" where
  "room_peers tab roomName = (case fmlookup tab roomName of Some m \<Rightarrow> m | None \<Rightarrow> fmempty)"

text \<open>
  Lines 224 to 227: the room's map is made when it is missing, then the entry of
  the username is set.
\<close>

definition upsert_peer :: "peer_table \<Rightarrow> string \<Rightarrow> string \<Rightarrow> peer \<Rightarrow> peer_table" where
  "upsert_peer tab roomName user p =
     (let tab1 = (if fmlookup tab roomName = None then fmupd roomName fmempty tab else tab)
      in fmupd roomName (fmupd user p (room_peers tab1 roomName)) tab1)"




section \<open>The relay as a transition system\<close>

text \<open>
  Where the handler of one stream connection stands: before the client exists
  (\<open>Idle\<close>), after \<^verbatim>\<open>client := &Client{...}\<close> (\<open>Created\<close>), in the reader loop after
  \<^verbatim>\<open>room.join(client)\<close> (\<open>Joined\<close>), after \<^verbatim>\<open>room.leave(client)\<close> (\<open>Left\<close>), and after
  \<^verbatim>\<open>close(client.sendCh)\<close> (\<open>Closed\<close>).
\<close>

datatype pc = Idle | Created | Joined | Left | Closed

text \<open>
  The shared state: the hub and its rooms, the clients, the control point and the
  local variable \<^verbatim>\<open>roomName\<close> of each client's handler, and the panic that stopped
  the process, if any.
\<close>

record world =
  hub :: Hub
  heap :: client_heap
  next_client :: client_ref
  ctl :: "client_ref \<Rightarrow> pc"
  roomName_of :: "client_ref \<Rightarrow> string"
  panicked :: "panic option"

definition init_world :: world where
  "init_world =
     \<lparr>hub = NewHub,
      heap = (\<lambda>_. \<lparr>username = [], room = 0, sendCh = make_chan 256\<rparr>),
      next_client = 0,
      ctl = (\<lambda>_. Idle),
      roomName_of = (\<lambda>_. []),
      panicked = None\<rparr>"

text \<open>
  The steps. Each one is what a goroutine does while it holds a lock (or touches
  its own variables only), so the steps of different goroutines interleave in any
  order:
  \<^item> \<open>Connect path now\<close>: a handler whose upgrade succeeded takes the names from the
    path, resolves the room and makes its client (lines 111 to 134);
  \<^item> \<open>Join c\<close>: \<^verbatim>\<open>room.join(client)\<close>;
  \<^item> \<open>Recv c frame now ks\<close>: the reader loop got \<open>frame\<close> and broadcasts its envelope;
  \<^item> \<open>Leave c\<close>: the reader loop ended, \<^verbatim>\<open>room.leave(client)\<close>;
  \<^item> \<open>Close c\<close>: \<^verbatim>\<open>close(client.sendCh)\<close>;
  \<^item> \<open>Take c\<close>: the writer goroutine receives one item from the channel;
  \<^item> \<open>Resolve n\<close>: the datagram loop calls \<^verbatim>\<open>hub.getRoom\<close>;
  \<^item> \<open>Inject r msg ks\<close>: the datagram loop broadcasts \<open>msg\<close> into a room it
    resolved, with no sender.
\<close>

datatype event =
    Connect string int
  | Join client_ref
  | Recv client_ref string int "client_ref list"
  | Leave client_ref
  | Close client_ref
  | Take client_ref
  | Resolve string
  | Inject room_ref string "client_ref list"

definition after_broadcast :: "world \<Rightarrow> (panic + client_heap) option \<Rightarrow> world option" where
  "after_broadcast w res =
     (case res of
        None \<Rightarrow> None
      | Some (Inl p) \<Rightarrow> Some (w\<lparr>panicked := Some p\<rparr>)
      | Some (Inr h) \<Rightarrow> Some (w\<lparr>heap := h\<rparr>))"

text \<open>
  \<open>exec e w\<close> is the state after the step \<open>e\<close>, or \<open>None\<close> when the step cannot be
  taken in \<open>w\<close> (the handler is not at that point, or the process has panicked).
\<close>

fun exec :: "event \<Rightarrow> world \<Rightarrow> world option" where
  "exec (Connect path now) w =
     (if panicked w \<noteq> None then None
      else
        (case ws_names path now of
           (rn, un) \<Rightarrow>
             (case getRoom (hub w) rn of
                (r, hub1) \<Rightarrow>
                  Some (w\<lparr>hub := hub1,
                         heap := (heap w)(next_client w :=
                                   \<lparr>username = un, room = r, sendCh = make_chan 256\<rparr>),
                         next_client := Suc (next_client w),
                         ctl := (ctl w)(next_client w := Created),
                         roomName_of := (roomName_of w)(next_client w := rn)\<rparr>))))"
| "exec (Join c) w =
     (if panicked w \<noteq> None \<or> ctl w c \<noteq> Created then None
      else Some (w\<lparr>hub := room_update (hub w) (room (heap w c)) (\<lambda>r. join r c),
                  ctl := (ctl w)(c := Joined)\<rparr>))"
| "exec (Recv c frame now ks) w =
     (if panicked w \<noteq> None \<or> ctl w c \<noteq> Joined then None
      else after_broadcast w
             (broadcast (room_heap (hub w) (room (heap w c))) ks (Some c)
                (MarshalEnvelope (roomName_of w c) (username (heap w c)) now (Some frame))
                (heap w)))"
| "exec (Leave c) w =
     (if panicked w \<noteq> None \<or> ctl w c \<noteq> Joined then None
      else Some (w\<lparr>hub := room_update (hub w) (room (heap w c)) (\<lambda>r. leave r c),
                  ctl := (ctl w)(c := Left)\<rparr>))"
| "exec (Close c) w =
     (if panicked w \<noteq> None \<or> ctl w c \<noteq> Left then None
      else (case close_chan (sendCh (heap w c)) of
              Inl p \<Rightarrow> Some (w\<lparr>panicked := Some p\<rparr>)
            | Inr ch \<Rightarrow>
                Some (w\<lparr>heap := (heap w)(c := (heap w c)\<lparr>sendCh := ch\<rparr>),
                       ctl := (ctl w)(c := Closed)\<rparr>)))"
| "exec (Take c) w =
     (if panicked w \<noteq> None \<or> buf (sendCh (heap w c)) = [] then None
      else Some (w\<lparr>heap := (heap w)(c := (heap w c)\<lparr>sendCh :=
                     (sendCh (heap w c))\<lparr>buf := tl (buf (sendCh (heap w c)))\<rparr>\<rparr>)\<rparr>))"
| "exec (Resolve n) w =
     (if panicked w \<noteq> None then None else Some (w\<lparr>hub := snd (getRoom (hub w) n)\<rparr>))"
| "exec (Inject r msg ks) w =
     (if panicked w \<noteq> None then None
      else after_broadcast w (broadcast (room_heap (hub w) r) ks None msg (heap w)))"

text \<open>A run: the steps of a list, first to last.\<close>

fun run :: "event list \<Rightarrow> world \<Rightarrow> world option" where
  "run [] w = Some w"
| "run (e # es) w = (case exec e w of None \<Rightarrow> None | Some w1 \<Rightarrow> run es w1)"

text \<open>The states the relay can be in: those some run from the start leads to.\<close>

definition reachable :: "world \<Rightarrow> bool" where
  "reachable w = (\<exists>es. run es init_world = Some w)"

text \<open>
  What holds in every state the relay can be in: no panic has happened; a channel
  is closed exactly when its handler is past \<^verbatim>\<open>close\<close>; a member of a room is a
  client in its reader loop, and the room is the one the client points to; and a
  client that does not exist yet is nowhere.
\<close>

definition relay_inv :: "world \<Rightarrow> bool" where
  "relay_inv w =
     (panicked w = None
      \<and> (\<forall>c. closed (sendCh (heap w c)) = (ctl w c = Closed))
      \<and> (\<forall>r c. is_member (room_heap (hub w) r) c \<longrightarrow> ctl w c = Joined \<and> room (heap w c) = r)
      \<and> (\<forall>c. next_client w \<le> c \<longrightarrow> ctl w c = Idle))"


section \<open>Broadcast: who is offered the message\<close>

lemma try_send_open: "\<not> closed ch \<Longrightarrow> try_send ch msg = Inr (offer ch msg)"
  by (simp add: try_send_def offer_def)

lemma closed_offer: "closed (offer ch msg) = closed ch"
  by (simp add: offer_def)

lemma broadcast_loop_open:
  "distinct ks \<Longrightarrow> (\<forall>c \<in> set ks. Some c \<noteq> sender \<longrightarrow> \<not> closed (sendCh (h c))) \<Longrightarrow>
   broadcast_loop ks sender msg h =
     Inr (\<lambda>c. if c \<in> set ks \<and> Some c \<noteq> sender
              then (h c)\<lparr>sendCh := offer (sendCh (h c)) msg\<rparr> else h c)"
proof (induction ks arbitrary: h)
  case Nil
  then show ?case by simp
next
  case (Cons k ks)
  show ?case
  proof (cases "Some k = sender")
    case True
    then have "broadcast_loop (k # ks) sender msg h = broadcast_loop ks sender msg h" by simp
    also have "\<dots> = Inr (\<lambda>c. if c \<in> set ks \<and> Some c \<noteq> sender
              then (h c)\<lparr>sendCh := offer (sendCh (h c)) msg\<rparr> else h c)"
      using Cons by simp
    finally show ?thesis using True by (auto intro!: ext)
  next
    case False
    let ?h = "h(k := (h k)\<lparr>sendCh := offer (sendCh (h k)) msg\<rparr>)"
    have op: "\<not> closed (sendCh (h k))" using Cons.prems False by simp
    have k: "k \<notin> set ks" and d: "distinct ks" using Cons.prems by simp_all
    have pre: "\<forall>c \<in> set ks. Some c \<noteq> sender \<longrightarrow> \<not> closed (sendCh (?h c))"
    proof
      fix c assume "c \<in> set ks"
      then have "c \<noteq> k" using k by auto
      then show "Some c \<noteq> sender \<longrightarrow> \<not> closed (sendCh (?h c))"
        using Cons.prems(2) \<open>c \<in> set ks\<close> by simp
    qed
    have "broadcast_loop (k # ks) sender msg h = broadcast_loop ks sender msg ?h"
      using False op by (simp add: try_send_open)
    also have "\<dots> = Inr (\<lambda>c. if c \<in> set ks \<and> Some c \<noteq> sender
              then (?h c)\<lparr>sendCh := offer (sendCh (?h c)) msg\<rparr> else ?h c)"
      by (rule Cons.IH [OF d pre])
    also have "(\<lambda>c. if c \<in> set ks \<and> Some c \<noteq> sender
              then (?h c)\<lparr>sendCh := offer (sendCh (?h c)) msg\<rparr> else ?h c)
        = (\<lambda>c. if c \<in> set (k # ks) \<and> Some c \<noteq> sender
              then (h c)\<lparr>sendCh := offer (sendCh (h c)) msg\<rparr> else h c)"
    proof (rule ext)
      fix c
      show "(if c \<in> set ks \<and> Some c \<noteq> sender
              then (?h c)\<lparr>sendCh := offer (sendCh (?h c)) msg\<rparr> else ?h c)
        = (if c \<in> set (k # ks) \<and> Some c \<noteq> sender
              then (h c)\<lparr>sendCh := offer (sendCh (h c)) msg\<rparr> else h c)"
        using False k by (cases "c = k") simp_all
    qed
    finally show ?thesis .
  qed
qed

lemma range_order_set:
  assumes "range_order m ks"
  shows "(c \<in> set ks) = (c |\<in>| fmdom m)"
proof -
  have "fset_of_list ks = fmdom m" using assms by (simp add: range_order_def)
  then have "(c |\<in>| fset_of_list ks) = (c |\<in>| fmdom m)" by simp
  then show ?thesis by (simp add: fset_of_list_elem)
qed

lemma broadcast_open:
  assumes "range_order (clients r) ks"
    and "\<forall>c. is_member r c \<and> Some c \<noteq> sender \<longrightarrow> \<not> closed (sendCh (h c))"
  shows "broadcast r ks sender msg h =
     Some (Inr (\<lambda>c. if is_member r c \<and> Some c \<noteq> sender
              then (h c)\<lparr>sendCh := offer (sendCh (h c)) msg\<rparr> else h c))"
proof -
  have s: "\<And>c. (c \<in> set ks) = is_member r c"
    using assms(1) by (simp add: range_order_set is_member_def)
  have d: "distinct ks" using assms(1) by (simp add: range_order_def)
  show ?thesis
    using assms broadcast_loop_open [OF d, of sender h msg]
    by (simp add: broadcast_def s)
qed


lemma is_member_join: "is_member (join r c) d = (d = c \<or> is_member r d)"
  by (auto simp: is_member_def join_def)

lemma is_member_leave: "is_member (leave r c) d = (d \<noteq> c \<and> is_member r d)"
  by (auto simp: is_member_def leave_def)

lemma is_member_new_room: "\<not> is_member (new_room n) c"
  by (simp add: is_member_def new_room_def)

lemma getRoom_members:
  "is_member (room_heap (snd (getRoom h n)) r) c \<Longrightarrow> is_member (room_heap h r) c"
  by (auto simp: getRoom_def Let_def is_member_new_room split: option.splits if_splits)

lemma relay_inv_init: "relay_inv init_world"
  by (simp add: relay_inv_def init_world_def NewHub_def make_chan_def is_member_new_room)

lemma relay_inv_broadcast:
  assumes inv: "relay_inv w" and ro: "range_order (clients (room_heap (hub w) r)) ks"
  shows "broadcast (room_heap (hub w) r) ks sender msg (heap w) =
     Some (Inr (\<lambda>c. if is_member (room_heap (hub w) r) c \<and> Some c \<noteq> sender
              then (heap w c)\<lparr>sendCh := offer (sendCh (heap w c)) msg\<rparr> else heap w c))"
proof (rule broadcast_open [OF ro])
  show "\<forall>c. is_member (room_heap (hub w) r) c \<and> Some c \<noteq> sender \<longrightarrow> \<not> closed (sendCh (heap w c))"
    using inv by (auto simp: relay_inv_def)
qed

lemma broadcast_None: "\<not> range_order (clients r) ks \<Longrightarrow> broadcast r ks sender msg h = None"
  by (simp add: broadcast_def)

lemma relay_inv_after_broadcast:
  assumes inv: "relay_inv w"
    and ex: "after_broadcast w (broadcast (room_heap (hub w) r) ks sender msg (heap w)) = Some w'"
  shows "relay_inv w'"
proof (cases "range_order (clients (room_heap (hub w) r)) ks")
  case False
  then show ?thesis using ex by (simp add: broadcast_None after_broadcast_def)
next
  case True
  let ?h = "\<lambda>c. if is_member (room_heap (hub w) r) c \<and> Some c \<noteq> sender
              then (heap w c)\<lparr>sendCh := offer (sendCh (heap w c)) msg\<rparr> else heap w c"
  have w': "w' = w\<lparr>heap := ?h\<rparr>"
    using ex relay_inv_broadcast [OF inv True, of sender msg] by (simp add: after_broadcast_def)
  have c: "\<And>c. closed (sendCh (?h c)) = closed (sendCh (heap w c))"
    by (simp add: closed_offer)
  have r: "\<And>c. room (?h c) = room (heap w c)" by simp
  show ?thesis
    unfolding relay_inv_def w' using inv
    by (simp add: relay_inv_def closed_offer)
qed

lemma relay_inv_exec:
  assumes inv: "relay_inv w" and ex: "exec e w = Some w'"
  shows "relay_inv w'"
proof (cases e)
  case (Connect path now)
  obtain rn un where n: "ws_names path now = (rn, un)" by (cases "ws_names path now") auto
  obtain r hub1 where g: "getRoom (hub w) rn = (r, hub1)" by (cases "getRoom (hub w) rn") auto
  have w': "w' = w\<lparr>hub := hub1,
                   heap := (heap w)(next_client w := \<lparr>username = un, room = r, sendCh = make_chan 256\<rparr>),
                   next_client := Suc (next_client w),
                   ctl := (ctl w)(next_client w := Created),
                   roomName_of := (roomName_of w)(next_client w := rn)\<rparr>"
    using ex Connect n g by (simp split: if_splits)
  have m: "\<And>r' c. is_member (room_heap hub1 r') c \<Longrightarrow> is_member (room_heap (hub w) r') c"
    using getRoom_members [of "hub w" rn] g by simp
  have idle: "ctl w (next_client w) = Idle" using inv by (simp add: relay_inv_def)
  have nm: "\<And>r'. \<not> is_member (room_heap (hub w) r') (next_client w)"
    using inv idle by (auto simp: relay_inv_def)
  have m2: "\<And>r' c. is_member (room_heap hub1 r') c \<Longrightarrow>
                  c \<noteq> next_client w \<and> ctl w c = Joined \<and> room (heap w c) = r'"
    using m nm inv unfolding relay_inv_def by blast
  show ?thesis
    unfolding relay_inv_def w' using inv idle m2
    by (auto simp: relay_inv_def make_chan_def)
next
  case (Join c)
  have cr: "ctl w c = Created" using ex Join by (simp split: if_splits)
  have w': "w' = w\<lparr>hub := room_update (hub w) (room (heap w c)) (\<lambda>r. join r c),
                  ctl := (ctl w)(c := Joined)\<rparr>"
    using ex Join by (simp split: if_splits)
  show ?thesis
    unfolding relay_inv_def w' using inv cr
    by (auto simp: relay_inv_def room_update_def is_member_join)
next
  case (Recv c frame now ks)
  have "after_broadcast w
          (broadcast (room_heap (hub w) (room (heap w c))) ks (Some c)
             (MarshalEnvelope (roomName_of w c) (username (heap w c)) now (Some frame))
             (heap w)) = Some w'"
    using ex Recv by (simp split: if_splits)
  then show ?thesis by (rule relay_inv_after_broadcast [OF inv])
next
  case (Leave c)
  have cr: "ctl w c = Joined" using ex Leave by (simp split: if_splits)
  have w': "w' = w\<lparr>hub := room_update (hub w) (room (heap w c)) (\<lambda>r. leave r c),
                  ctl := (ctl w)(c := Left)\<rparr>"
    using ex Leave by (simp split: if_splits)
  show ?thesis
    unfolding relay_inv_def w' using inv cr
    by (auto simp: relay_inv_def room_update_def is_member_leave)
next
  case (Close c)
  have cr: "ctl w c = Left" using ex Close by (simp split: if_splits)
  then have op: "\<not> closed (sendCh (heap w c))" using inv by (simp add: relay_inv_def)
  have w': "w' = w\<lparr>heap := (heap w)(c := (heap w c)\<lparr>sendCh := (sendCh (heap w c))\<lparr>closed := True\<rparr>\<rparr>),
                  ctl := (ctl w)(c := Closed)\<rparr>"
    using ex Close op by (simp add: close_chan_def split: if_splits)
  show ?thesis
    unfolding relay_inv_def w' using inv cr
    by (auto simp: relay_inv_def)
next
  case (Take c)
  have w': "w' = w\<lparr>heap := (heap w)(c := (heap w c)\<lparr>sendCh :=
                     (sendCh (heap w c))\<lparr>buf := tl (buf (sendCh (heap w c)))\<rparr>\<rparr>)\<rparr>"
    using ex Take by (simp split: if_splits)
  show ?thesis
    unfolding relay_inv_def w' using inv
    by (auto simp: relay_inv_def)
next
  case (Resolve n)
  have w': "w' = w\<lparr>hub := snd (getRoom (hub w) n)\<rparr>"
    using ex Resolve by (simp split: if_splits)
  have m2: "\<And>r' c. is_member (room_heap (snd (getRoom (hub w) n)) r') c \<Longrightarrow>
                  ctl w c = Joined \<and> room (heap w c) = r'"
    using getRoom_members [of "hub w" n] inv unfolding relay_inv_def by blast
  show ?thesis
    unfolding relay_inv_def w' using inv m2
    by (auto simp: relay_inv_def)
next
  case (Inject r msg ks)
  have "after_broadcast w (broadcast (room_heap (hub w) r) ks None msg (heap w)) = Some w'"
    using ex Inject by (simp split: if_splits)
  then show ?thesis by (rule relay_inv_after_broadcast [OF inv])
qed

lemma relay_inv_run: "relay_inv w \<Longrightarrow> run es w = Some w' \<Longrightarrow> relay_inv w'"
proof (induction es arbitrary: w)
  case Nil
  then show ?case by simp
next
  case (Cons e es)
  then show ?case by (auto split: option.splits dest: relay_inv_exec)
qed

lemma reachableI: "run es init_world = Some w \<Longrightarrow> reachable w"
  unfolding reachable_def by (rule exI)

lemma reachable_inv: "reachable w \<Longrightarrow> relay_inv w"
  using relay_inv_run [OF relay_inv_init] by (auto simp: reachable_def)



lemma ws_names_a_u: "ws_names ''/ws/a/u'' 1 = (''a'', ''u'')"
  by code_simp

lemma ws_names_a_v: "ws_names ''/ws/a/v'' 2 = (''a'', ''v'')"
  by code_simp

text \<open>Two clients connect to the room \<^verbatim>\<open>a\<close> and join it.\<close>

lemma run_two_clients:
  "\<exists>w. run [Connect ''/ws/a/u'' 1, Join 0, Connect ''/ws/a/v'' 2, Join 1] init_world = Some w
     \<and> range_order (clients (room_heap (hub w) 0)) [1, 0]
     \<and> is_member (room_heap (hub w) 0) 0 \<and> is_member (room_heap (hub w) 0) 1
     \<and> sendCh (heap w 0) = make_chan 256 \<and> sendCh (heap w 1) = make_chan 256"
  by (simp add: ws_names_a_u ws_names_a_v init_world_def NewHub_def getRoom_def room_update_def
      join_def new_room_def range_order_def is_member_def)

text \<open>
  C1. In every state the relay can be in, and for every order in which the loop may
  visit the members, \<^verbatim>\<open>Room.broadcast(sender, msg)\<close> returns and has offered \<open>msg\<close> to
  the queue of every member other than \<open>sender\<close>; the sender's own client and every
  client outside the room are left as they were. With no sender (nil) every member
  is offered the message.
\<close>

theorem broadcast_offers_to_all_but_sender:
  assumes "reachable w" and "range_order (clients (room_heap (hub w) r)) ks"
  shows "\<exists>h'. broadcast (room_heap (hub w) r) ks sender msg (heap w) = Some (Inr h')
     \<and> (\<forall>c. is_member (room_heap (hub w) r) c \<and> Some c \<noteq> sender \<longrightarrow>
            h' c = (heap w c)\<lparr>sendCh := offer (sendCh (heap w c)) msg\<rparr>)
     \<and> (\<forall>c. Some c = sender \<longrightarrow> h' c = heap w c)
     \<and> (\<forall>c. \<not> is_member (room_heap (hub w) r) c \<longrightarrow> h' c = heap w c)
     \<and> (sender = None \<longrightarrow>
          (\<forall>c. is_member (room_heap (hub w) r) c \<longrightarrow>
             h' c = (heap w c)\<lparr>sendCh := offer (sendCh (heap w c)) msg\<rparr>))"
proof -
  have inv: "relay_inv w" using assms(1) by (rule reachable_inv)
  show ?thesis
    unfolding relay_inv_broadcast [OF inv assms(2), of sender msg] by simp
qed

theorem broadcast_offers_to_all_but_sender_witness:
  "\<exists>w. run [Connect ''/ws/a/u'' 1, Join 0, Connect ''/ws/a/v'' 2, Join 1] init_world = Some w
     \<and> range_order (clients (room_heap (hub w) 0)) [1, 0]
     \<and> (\<exists>h'. broadcast (room_heap (hub w) 0) [1, 0] (Some 0) ''ping'' (heap w) = Some (Inr h')
           \<and> buf (sendCh (h' 1)) = [''ping''] \<and> buf (sendCh (h' 0)) = [])"
proof -
  obtain w where w: "run [Connect ''/ws/a/u'' 1, Join 0, Connect ''/ws/a/v'' 2, Join 1] init_world = Some w"
    and ro: "range_order (clients (room_heap (hub w) 0)) [1, 0]"
    and m: "is_member (room_heap (hub w) 0) 1"
    and ch: "sendCh (heap w 0) = make_chan 256" "sendCh (heap w 1) = make_chan 256"
    using run_two_clients by blast
  have re: "reachable w" using w by (rule reachableI)
  obtain h' where b: "broadcast (room_heap (hub w) 0) [1, 0] (Some 0) ''ping'' (heap w) = Some (Inr h')"
    and d: "\<forall>c. is_member (room_heap (hub w) 0) c \<and> Some c \<noteq> Some 0 \<longrightarrow>
            h' c = (heap w c)\<lparr>sendCh := offer (sendCh (heap w c)) ''ping''\<rparr>"
    and s: "\<forall>c. Some c = Some 0 \<longrightarrow> h' c = heap w c"
    using broadcast_offers_to_all_but_sender [OF re ro, of "Some 0" "''ping''"] by blast
  have "h' 1 = (heap w 1)\<lparr>sendCh := offer (sendCh (heap w 1)) ''ping''\<rparr>" using d m by simp
  then have b1: "buf (sendCh (h' 1)) = [''ping'']" using ch by (simp add: offer_def make_chan_def)
  have "h' 0 = heap w 0" using s by simp
  then have b0: "buf (sendCh (h' 0)) = []" using ch by (simp add: make_chan_def)
  show ?thesis using w ro b b1 b0 by blast
qed

section \<open>Runs of the relay\<close>

lemma run_append:
  "run (es1 @ es2) w = (case run es1 w of None \<Rightarrow> None | Some w1 \<Rightarrow> run es2 w1)"
  by (induction es1 arbitrary: w) (auto split: option.splits)

lemma run_appendD:
  assumes "run (es1 @ es2) w = Some w'"
  obtains w1 where "run es1 w = Some w1" and "run es2 w1 = Some w'"
  using assms by (auto simp: run_append split: option.splits)

lemma after_broadcast_ctl:
  "after_broadcast w res = Some w' \<Longrightarrow> ctl w' = ctl w"
  by (auto simp: after_broadcast_def split: option.splits sum.splits)

text \<open>How a step moves the control point of a client, in a state that satisfies the invariant.\<close>

lemma exec_ctl:
  assumes inv: "relay_inv w" and ex: "exec e w = Some w'"
  shows "ctl w' c =
     (case e of
        Connect p t \<Rightarrow> if c = next_client w then Created else ctl w c
      | Join d \<Rightarrow> if c = d then Joined else ctl w c
      | Leave d \<Rightarrow> if c = d then Left else ctl w c
      | Close d \<Rightarrow> if c = d then Closed else ctl w c
      | _ \<Rightarrow> ctl w c)"
proof (cases e)
  case (Connect p t)
  then show ?thesis using ex by (auto split: if_splits prod.splits)
next
  case (Join d)
  then show ?thesis using ex by (auto split: if_splits)
next
  case (Recv d f t ks)
  then show ?thesis using ex after_broadcast_ctl by (auto split: if_splits)
next
  case (Leave d)
  then show ?thesis using ex by (auto split: if_splits)
next
  case (Close d)
  have l: "ctl w d = Left" using ex Close by (simp split: if_splits)
  then have "\<not> closed (sendCh (heap w d))" using inv by (simp add: relay_inv_def)
  then show ?thesis using ex Close by (auto simp: close_chan_def split: if_splits)
next
  case (Take d)
  then show ?thesis using ex by (auto split: if_splits)
next
  case (Resolve n)
  then show ?thesis using ex by (auto split: if_splits)
next
  case (Inject r m ks)
  then show ?thesis using ex after_broadcast_ctl by (auto split: if_splits)
qed

lemma exec_enabled:
  assumes "exec e w = Some w'"
  shows "(\<forall>d. e = Join d \<longrightarrow> ctl w d = Created) \<and> (\<forall>d. e = Leave d \<longrightarrow> ctl w d = Joined)
       \<and> (\<forall>d. e = Close d \<longrightarrow> ctl w d = Left)"
  using assms by (cases e) (auto split: if_splits)

lemma trace_ctl:
  "run es init_world = Some w \<Longrightarrow>
     (Leave c \<in> set es) = (ctl w c = Left \<or> ctl w c = Closed)
     \<and> (Close c \<in> set es) = (ctl w c = Closed)
     \<and> count_list es (Close c) \<le> 1 \<and> count_list es (Leave c) \<le> 1"
proof (induction es arbitrary: w rule: rev_induct)
  case Nil
  then show ?case by (auto simp: init_world_def)
next
  case (snoc e es)
  obtain w1 where r1: "run es init_world = Some w1" and ex: "exec e w1 = Some w"
    using snoc.prems by (auto simp: run_append split: option.splits)
  have inv: "relay_inv w1" using relay_inv_run [OF relay_inv_init r1] .
  have idle: "ctl w1 (next_client w1) = Idle" using inv by (simp add: relay_inv_def)
  note IH = snoc.IH [OF r1]
  note en = exec_enabled [OF ex]
  note ct = exec_ctl [OF inv ex, of c]
  have nl: "count_list es (Leave c) = 0 \<longleftrightarrow> Leave c \<notin> set es"
    by (simp add: count_list_0_iff)
  have nc: "count_list es (Close c) = 0 \<longleftrightarrow> Close c \<notin> set es"
    by (simp add: count_list_0_iff)
  show ?case
  proof (cases e)
    case (Connect p t)
    then show ?thesis using IH ct idle by auto
  next
    case (Join d)
    then show ?thesis using IH ct en by auto
  next
    case (Recv d f t ks)
    then show ?thesis using IH ct by auto
  next
    case (Leave d)
    then show ?thesis using IH ct en nl by (cases "c = d") auto
  next
    case (Close d)
    then show ?thesis using IH ct en nc by (cases "c = d") auto
  next
    case (Take d)
    then show ?thesis using IH ct by auto
  next
    case (Resolve n)
    then show ?thesis using IH ct by auto
  next
    case (Inject r m ks)
    then show ?thesis using IH ct by auto
  qed
qed



section \<open>Broadcast: a full queue\<close>

lemma offer_full: "cap ch \<le> length (buf ch) \<Longrightarrow> offer ch msg = ch"
  by (simp add: offer_def)

lemma offer_space: "length (buf ch) < cap ch \<Longrightarrow> buf (offer ch msg) = buf ch @ [msg]"
  by (simp add: offer_def)

text \<open>
  C2. In every state the relay can be in, when a recipient's queue is full,
  \<^verbatim>\<open>Room.broadcast\<close> still returns (no branch of it waits, and it panics on nothing):
  the message is dropped for that recipient, whose client is left exactly as it was;
  the sender's client is left as it was too, and the call returns nothing that
  tells it about the drop; and every other recipient whose queue has room gets the
  message at the end of its queue.
\<close>

theorem full_queue_drops_for_that_recipient_only:
  assumes "reachable w" and "range_order (clients (room_heap (hub w) r)) ks"
    and "is_member (room_heap (hub w) r) c" and "Some c \<noteq> sender"
    and "cap (sendCh (heap w c)) \<le> length (buf (sendCh (heap w c)))"
  shows "\<exists>h'. broadcast (room_heap (hub w) r) ks sender msg (heap w) = Some (Inr h')
     \<and> h' c = heap w c
     \<and> (\<forall>s. sender = Some s \<longrightarrow> h' s = heap w s)
     \<and> (\<forall>d. is_member (room_heap (hub w) r) d \<and> Some d \<noteq> sender
            \<and> length (buf (sendCh (heap w d))) < cap (sendCh (heap w d)) \<longrightarrow>
            buf (sendCh (h' d)) = buf (sendCh (heap w d)) @ [msg])"
proof -
  have inv: "relay_inv w" using assms(1) by (rule reachable_inv)
  show ?thesis
    unfolding relay_inv_broadcast [OF inv assms(2), of sender msg]
    using assms(3,4,5) by (auto simp: offer_full offer_space)
qed

lemma run_fill:
  assumes inv: "relay_inv w" and j: "ctl w s = Joined"
    and ro: "range_order (clients (room_heap (hub w) (room (heap w s)))) ks"
    and m: "is_member (room_heap (hub w) (room (heap w s))) c" and ne: "c \<noteq> s"
    and len: "length (buf (sendCh (heap w c))) + n \<le> cap (sendCh (heap w c))"
  shows "\<exists>w'. run (replicate n (Recv s f t ks)) w = Some w'
     \<and> hub w' = hub w \<and> ctl w' = ctl w \<and> next_client w' = next_client w
     \<and> panicked w' = None
     \<and> cap (sendCh (heap w' c)) = cap (sendCh (heap w c))
     \<and> buf (sendCh (heap w' c)) = buf (sendCh (heap w c))
          @ replicate n (MarshalEnvelope (roomName_of w s) (username (heap w s)) t (Some f))"
  using assms
proof (induction n arbitrary: w)
  case 0
  then show ?case by (simp add: relay_inv_def)
next
  case (Suc n)
  let ?R = "room_heap (hub w) (room (heap w s))"
  let ?msg = "MarshalEnvelope (roomName_of w s) (username (heap w s)) t (Some f)"
  let ?h = "\<lambda>c. if is_member ?R c \<and> Some c \<noteq> Some s
              then (heap w c)\<lparr>sendCh := offer (sendCh (heap w c)) ?msg\<rparr> else heap w c"
  let ?w1 = "w\<lparr>heap := ?h\<rparr>"
  have p: "panicked w = None" using Suc.prems(1) by (simp add: relay_inv_def)
  have b: "broadcast ?R ks (Some s) ?msg (heap w) = Some (Inr ?h)"
    by (rule relay_inv_broadcast [OF Suc.prems(1) Suc.prems(3)])
  have e: "exec (Recv s f t ks) w = Some ?w1"
    using p Suc.prems(2) b by (simp add: after_broadcast_def)
  have inv1: "relay_inv ?w1" by (rule relay_inv_exec [OF Suc.prems(1) e])
  have hs: "?h s = heap w s" by simp
  have hc: "?h c = (heap w c)\<lparr>sendCh := offer (sendCh (heap w c)) ?msg\<rparr>"
    using Suc.prems(4,5) by simp
  have sp: "length (buf (sendCh (heap w c))) < cap (sendCh (heap w c))" using Suc.prems(6) by simp
  have bc: "buf (sendCh (?h c)) = buf (sendCh (heap w c)) @ [?msg]"
    using hc sp by (simp add: offer_def)
  have cc: "cap (sendCh (?h c)) = cap (sendCh (heap w c))"
    using hc by (simp add: offer_def)
  have "\<exists>w'. run (replicate n (Recv s f t ks)) ?w1 = Some w'
     \<and> hub w' = hub ?w1 \<and> ctl w' = ctl ?w1 \<and> next_client w' = next_client ?w1
     \<and> panicked w' = None
     \<and> cap (sendCh (heap w' c)) = cap (sendCh (heap ?w1 c))
     \<and> buf (sendCh (heap w' c)) = buf (sendCh (heap ?w1 c))
          @ replicate n (MarshalEnvelope (roomName_of ?w1 s) (username (heap ?w1 s)) t (Some f))"
  proof (rule Suc.IH [OF inv1])
    show "ctl ?w1 s = Joined" using Suc.prems(2) by simp
    show "range_order (clients (room_heap (hub ?w1) (room (heap ?w1 s)))) ks"
      using Suc.prems(3) by simp
    show "is_member (room_heap (hub ?w1) (room (heap ?w1 s))) c" using Suc.prems(4) by simp
    show "c \<noteq> s" by (rule Suc.prems(5))
    show "length (buf (sendCh (heap ?w1 c))) + n \<le> cap (sendCh (heap ?w1 c))"
      using bc cc Suc.prems(6) by simp
  qed
  then obtain w' where r: "run (replicate n (Recv s f t ks)) ?w1 = Some w'"
    and f1: "hub w' = hub w" "ctl w' = ctl w" "next_client w' = next_client w" "panicked w' = None"
    and f2: "cap (sendCh (heap w' c)) = cap (sendCh (?h c))"
    and f3: "buf (sendCh (heap w' c)) = buf (sendCh (?h c)) @ replicate n ?msg"
    by auto
  have "run (replicate (Suc n) (Recv s f t ks)) w = Some w'" using e r by simp
  moreover have "buf (sendCh (heap w' c)) = buf (sendCh (heap w c)) @ replicate (Suc n) ?msg"
    using f3 bc by (simp add: replicate_append_same)
  moreover have "cap (sendCh (heap w' c)) = cap (sendCh (heap w c))" using f2 cc by simp
  ultimately show ?case using f1 by blast
qed


lemma run_two_clients_state:
  "\<exists>w. run [Connect ''/ws/a/u'' 1, Join 0, Connect ''/ws/a/v'' 2, Join 1] init_world = Some w
     \<and> hub w = \<lparr>rooms = fmupd ''a'' 0 fmempty,
                 room_heap = (\<lambda>_. new_room [])(0 := \<lparr>name = ''a'',
                    clients = fmupd 1 True (fmupd 0 True fmempty)\<rparr>),
                 next_room = 1\<rparr>
     \<and> ctl w 0 = Joined \<and> room (heap w 0) = 0 \<and> next_client w = 2
     \<and> sendCh (heap w 1) = make_chan 256"
  by (simp add: ws_names_a_u ws_names_a_v init_world_def NewHub_def getRoom_def room_update_def
      join_def new_room_def)

theorem full_queue_drops_for_that_recipient_only_witness:
  "\<exists>w. reachable w
     \<and> range_order (clients (room_heap (hub w) 0)) [2, 1, 0]
     \<and> is_member (room_heap (hub w) 0) 1
     \<and> cap (sendCh (heap w 1)) = 256 \<and> length (buf (sendCh (heap w 1))) = 256
     \<and> (\<exists>h'. broadcast (room_heap (hub w) 0) [2, 1, 0] (Some 0) ''ping'' (heap w) = Some (Inr h')
           \<and> h' 1 = heap w 1 \<and> buf (sendCh (h' 2)) = [''ping''])"
proof -
  let ?es0 = "[Connect ''/ws/a/u'' 1, Join 0, Connect ''/ws/a/v'' 2, Join 1]"
  let ?H = "\<lparr>rooms = fmupd ''a'' 0 fmempty,
             room_heap = (\<lambda>_. new_room [])(0 := \<lparr>name = ''a'',
                clients = fmupd 1 True (fmupd 0 True fmempty)\<rparr>),
             next_room = 1\<rparr>"
  obtain w0 where r0: "run ?es0 init_world = Some w0" and h0: "hub w0 = ?H"
    and c0: "ctl w0 0 = Joined" and rm0: "room (heap w0 0) = 0" and n0: "next_client w0 = 2"
    and ch0: "sendCh (heap w0 1) = make_chan 256"
    using run_two_clients_state by blast
  have inv0: "relay_inv w0" using relay_inv_run [OF relay_inv_init r0] .
  have "\<exists>w'. run (replicate 256 (Recv 0 ''x'' 5 [1, 0])) w0 = Some w'
     \<and> hub w' = hub w0 \<and> ctl w' = ctl w0 \<and> next_client w' = next_client w0
     \<and> panicked w' = None
     \<and> cap (sendCh (heap w' 1)) = cap (sendCh (heap w0 1))
     \<and> buf (sendCh (heap w' 1)) = buf (sendCh (heap w0 1))
          @ replicate 256 (MarshalEnvelope (roomName_of w0 0) (username (heap w0 0)) 5 (Some ''x''))"
  proof (rule run_fill [OF inv0 c0])
    show "range_order (clients (room_heap (hub w0) (room (heap w0 0)))) [1, 0]"
      by (simp add: h0 rm0 range_order_def)
    show "is_member (room_heap (hub w0) (room (heap w0 0))) 1"
      by (simp add: h0 rm0 is_member_def)
    show "(1::nat) \<noteq> 0" by simp
    show "length (buf (sendCh (heap w0 1))) + 256 \<le> cap (sendCh (heap w0 1))"
      using ch0 by (simp add: make_chan_def)
  qed
  then obtain w1 where r1: "run (replicate 256 (Recv 0 ''x'' 5 [1, 0])) w0 = Some w1"
    and h1: "hub w1 = ?H" and n1: "next_client w1 = 2" and p1: "panicked w1 = None"
    and cap1: "cap (sendCh (heap w1 1)) = 256"
    and len1: "length (buf (sendCh (heap w1 1))) = 256"
    using h0 n0 ch0 by (auto simp: make_chan_def)
  let ?w2 = "w1\<lparr>hub := ?H,
               heap := (heap w1)(2 := \<lparr>username = ''u'', room = 0, sendCh = make_chan 256\<rparr>),
               next_client := 3,
               ctl := (ctl w1)(2 := Created),
               roomName_of := (roomName_of w1)(2 := ''a'')\<rparr>"
  have e2: "exec (Connect ''/ws/a/u'' 1) w1 = Some ?w2"
    by (simp add: p1 ws_names_a_u h1 n1 getRoom_def)
  let ?w3 = "?w2\<lparr>hub := room_update ?H 0 (\<lambda>r. join r 2), ctl := (ctl ?w2)(2 := Joined)\<rparr>"
  have e3: "exec (Join 2) ?w2 = Some ?w3" by (simp add: p1)
  have "run (?es0 @ replicate 256 (Recv 0 ''x'' 5 [1, 0]) @ [Connect ''/ws/a/u'' 1, Join 2]) init_world
          = Some ?w3"
    using r0 r1 e2 e3 by (simp only: run_append run.simps option.case)
  then have re: "reachable ?w3" by (rule reachableI)
  have ro: "range_order (clients (room_heap (hub ?w3) 0)) [2, 1, 0]"
    by (simp add: room_update_def join_def range_order_def)
  have m: "is_member (room_heap (hub ?w3) 0) 1"
    by (simp add: room_update_def join_def is_member_def)
  have m2: "is_member (room_heap (hub ?w3) 0) 2"
    by (simp add: room_update_def join_def is_member_def)
  have cp: "cap (sendCh (heap ?w3 1)) = 256" and ln: "length (buf (sendCh (heap ?w3 1))) = 256"
    using cap1 len1 by simp_all
  have full: "cap (sendCh (heap ?w3 1)) \<le> length (buf (sendCh (heap ?w3 1)))"
    using cp ln by simp
  have ne: "Some (1::nat) \<noteq> Some 0" by simp
  obtain h' where b: "broadcast (room_heap (hub ?w3) 0) [2, 1, 0] (Some 0) ''ping'' (heap ?w3) = Some (Inr h')"
    and k: "h' 1 = heap ?w3 1"
    and o: "\<forall>d. is_member (room_heap (hub ?w3) 0) d \<and> Some d \<noteq> Some 0
            \<and> length (buf (sendCh (heap ?w3 d))) < cap (sendCh (heap ?w3 d)) \<longrightarrow>
            buf (sendCh (h' d)) = buf (sendCh (heap ?w3 d)) @ [''ping'']"
    using full_queue_drops_for_that_recipient_only [OF re ro m ne full, of "''ping''"] by blast
  have "buf (sendCh (h' 2)) = buf (sendCh (heap ?w3 2)) @ [''ping'']"
    using o m2 by (simp add: make_chan_def)
  then have b2: "buf (sendCh (h' 2)) = [''ping'']" by (simp add: make_chan_def)
  show ?thesis using re ro m cp ln b k b2 by blast
qed


section \<open>The hub: one room per name\<close>

lemma getRoom_lookup: "fmlookup (rooms (snd (getRoom h n))) n = Some (fst (getRoom h n))"
  by (simp add: getRoom_def Let_def split: option.splits)

lemma getRoom_keeps:
  "fmlookup (rooms h) m = Some r \<Longrightarrow> fmlookup (rooms (snd (getRoom h n))) m = Some r"
  by (auto simp: getRoom_def Let_def split: option.splits)

lemma getRoom_known: "fmlookup (rooms h) n = Some r \<Longrightarrow> getRoom h n = (r, h)"
  by (simp add: getRoom_def)

lemma getRooms_keeps:
  "fmlookup (rooms h) m = Some r \<Longrightarrow> fmlookup (rooms (getRooms h ns)) m = Some r"
  by (induction ns arbitrary: h) (auto simp: getRoom_keeps)

text \<open>
  C3. \<^verbatim>\<open>Hub.getRoom\<close> always returns a room (it has no failure value), and the room
  it returns is the one registered under the name in the hub's map afterwards. A
  second call with the same name changes nothing and returns the same room; so
  does a call with that name after any number of further calls with any names. A
  name that has a room keeps that room for ever.
\<close>

theorem getRoom_one_room_per_name:
  "fmlookup (rooms (snd (getRoom h n))) n = Some (fst (getRoom h n))
   \<and> getRoom (snd (getRoom h n)) n = getRoom h n
   \<and> (\<forall>ns. fst (getRoom (getRooms (snd (getRoom h n)) ns) n) = fst (getRoom h n))
   \<and> (\<forall>m r. fmlookup (rooms h) m = Some r \<longrightarrow> getRoom h m = (r, h)
         \<and> (\<forall>ns. fmlookup (rooms (getRooms h ns)) m = Some r))"
proof -
  let ?r = "fst (getRoom h n)" and ?h = "snd (getRoom h n)"
  have l: "fmlookup (rooms ?h) n = Some ?r" by (rule getRoom_lookup)
  have a: "getRoom ?h n = getRoom h n" using getRoom_known [OF l] by simp
  have b: "\<forall>ns. fst (getRoom (getRooms ?h ns) n) = ?r"
  proof
    fix ns
    have "fmlookup (rooms (getRooms ?h ns)) n = Some ?r" using l by (rule getRooms_keeps)
    then show "fst (getRoom (getRooms ?h ns) n) = ?r" by (simp add: getRoom_known)
  qed
  show ?thesis using l a b getRoom_known getRooms_keeps by blast
qed

theorem getRoom_one_room_per_name_witness:
  "fmlookup (rooms (snd (getRoom NewHub ''a''))) ''a'' = Some 0
   \<and> getRoom (snd (getRoom NewHub ''a'')) ''a'' = (0, snd (getRoom NewHub ''a''))
   \<and> fmlookup (rooms (getRooms (snd (getRoom NewHub ''a'')) [''b'', ''a'', ''c''])) ''a'' = Some 0"
proof -
  have l: "fmlookup (rooms (snd (getRoom NewHub ''a''))) ''a'' = Some 0"
    by (simp add: getRoom_def NewHub_def)
  show ?thesis
    using getRoom_one_room_per_name [of "snd (getRoom NewHub ''a'')" "''a''"] l by blast
qed


section \<open>Joining and leaving\<close>

text \<open>
  C7. \<^verbatim>\<open>Room.join\<close> makes the client a member, and joining twice is the same as
  joining once; for a client that is a member already the set of members and their
  number stay as they were. \<^verbatim>\<open>Room.leave\<close> takes the client out; for a client that is
  not a member the room is left as it was; for a member the number of members goes
  down by exactly one and nobody else leaves. Once the handler of a client has left
  its room, every broadcast in every room, in every later state, returns and
  leaves that client's queue untouched.
\<close>

theorem join_leave_membership:
  "join (join r c) c = join r c
   \<and> is_member (join r c) c
   \<and> (is_member r c \<longrightarrow>
        member_count (join r c) = member_count r \<and> (\<forall>d. is_member (join r c) d = is_member r d))
   \<and> \<not> is_member (leave r c) c
   \<and> (\<not> is_member r c \<longrightarrow> leave r c = r)
   \<and> (is_member r c \<longrightarrow>
        Suc (member_count (leave r c)) = member_count r
        \<and> (\<forall>d. is_member (leave r c) d = (d \<noteq> c \<and> is_member r d)))
   \<and> (run es init_world = Some w \<and> Leave c \<in> set es \<longrightarrow>
        (\<forall>r' ks sender msg. range_order (clients (room_heap (hub w) r')) ks \<longrightarrow>
           (\<exists>h'. broadcast (room_heap (hub w) r') ks sender msg (heap w) = Some (Inr h')
              \<and> h' c = heap w c)))"
proof -
  have a: "join (join r c) c = join r c" by (simp add: join_def)
  have b: "is_member (join r c) c" by (simp add: is_member_join)
  have c: "is_member r c \<longrightarrow>
        member_count (join r c) = member_count r \<and> (\<forall>d. is_member (join r c) d = is_member r d)"
    by (auto simp: is_member_def member_count_def join_def finsert_absorb)
  have d: "\<not> is_member (leave r c) c" by (simp add: is_member_leave)
  have e: "\<not> is_member r c \<longrightarrow> leave r c = r"
    by (simp add: is_member_def leave_def fmdrop_idle)
  have f: "is_member r c \<longrightarrow>
        Suc (member_count (leave r c)) = member_count r
        \<and> (\<forall>d. is_member (leave r c) d = (d \<noteq> c \<and> is_member r d))"
  proof
    assume "is_member r c"
    then have "c |\<in>| fmdom (clients r)" by (simp add: is_member_def)
    then have "Suc (fcard (fmdom (clients r) |-| {|c|})) = fcard (fmdom (clients r))"
      by (rule fcard_Suc_fminus1)
    moreover have "fmdom (clients (leave r c)) = fmdom (clients r) |-| {|c|}"
      by (simp add: leave_def)
    ultimately have "Suc (member_count (leave r c)) = member_count r"
      by (simp only: member_count_def)
    then show "Suc (member_count (leave r c)) = member_count r
        \<and> (\<forall>d. is_member (leave r c) d = (d \<noteq> c \<and> is_member r d))"
      by (simp add: is_member_leave)
  qed
  have g: "run es init_world = Some w \<and> Leave c \<in> set es \<longrightarrow>
        (\<forall>r' ks sender msg. range_order (clients (room_heap (hub w) r')) ks \<longrightarrow>
           (\<exists>h'. broadcast (room_heap (hub w) r') ks sender msg (heap w) = Some (Inr h')
              \<and> h' c = heap w c))"
  proof (intro impI allI)
    fix r' ks sender msg
    assume h: "run es init_world = Some w \<and> Leave c \<in> set es"
      and ro: "range_order (clients (room_heap (hub w) r')) ks"
    have inv: "relay_inv w" using relay_inv_run [OF relay_inv_init] h by blast
    have "ctl w c = Left \<or> ctl w c = Closed" using trace_ctl [of es w c] h by blast
    then have nm: "\<not> is_member (room_heap (hub w) r') c" using inv by (auto simp: relay_inv_def)
    show "\<exists>h'. broadcast (room_heap (hub w) r') ks sender msg (heap w) = Some (Inr h')
              \<and> h' c = heap w c"
      unfolding relay_inv_broadcast [OF inv ro, of sender msg] using nm by simp
  qed
  show ?thesis using a b c d e f g by blast
qed


theorem join_leave_membership_witness:
  "is_member \<lparr>name = ''a'', clients = fmupd 1 True (fmupd 0 True fmempty)\<rparr> 0
   \<and> member_count \<lparr>name = ''a'', clients = fmupd 1 True (fmupd 0 True fmempty)\<rparr> = 2
   \<and> member_count (leave \<lparr>name = ''a'', clients = fmupd 1 True (fmupd 0 True fmempty)\<rparr> 0) = 1
   \<and> (\<exists>w. run [Connect ''/ws/a/u'' 1, Join 0, Connect ''/ws/a/v'' 2, Join 1, Leave 0] init_world = Some w
         \<and> range_order (clients (room_heap (hub w) 0)) [1]
         \<and> (\<exists>h'. broadcast (room_heap (hub w) 0) [1] None ''x'' (heap w) = Some (Inr h')
               \<and> h' 0 = heap w 0))"
proof -
  let ?r = "\<lparr>name = ''a'', clients = fmupd 1 True (fmupd 0 True fmempty)\<rparr>"
  let ?es = "[Connect ''/ws/a/u'' 1, Join 0, Connect ''/ws/a/v'' 2, Join 1, Leave 0]"
  have m: "is_member ?r 0" by (simp add: is_member_def)
  have n: "member_count ?r = 2" by (simp add: member_count_def fcard_finsert_if)
  have "\<exists>w. run ?es init_world = Some w \<and> range_order (clients (room_heap (hub w) 0)) [1]"
    by (auto simp: ws_names_a_u ws_names_a_v init_world_def NewHub_def getRoom_def room_update_def
        join_def leave_def new_room_def range_order_def)
  then obtain w where w: "run ?es init_world = Some w"
    and ro: "range_order (clients (room_heap (hub w) 0)) [1]"
    by blast
  have l: "Leave 0 \<in> set ?es" by simp
  note t = join_leave_membership [of ?r 0 ?es w]
  have "Suc (member_count (leave ?r 0)) = member_count ?r" using t m by blast
  then have n1: "member_count (leave ?r 0) = 1" using n by simp
  have "\<exists>h'. broadcast (room_heap (hub w) 0) [1] None ''x'' (heap w) = Some (Inr h') \<and> h' 0 = heap w 0"
    using t w l ro by blast
  then show ?thesis using m n n1 w ro by blast
qed


section \<open>Teardown of a client\<close>

text \<open>
  C8. In every run of the relay no panic happens; a closed queue belongs to a
  client that is a member of no room; the queue of a client is closed exactly when
  its handler has taken the step \<^verbatim>\<open>close(client.sendCh)\<close>, which it takes at most
  once and only after \<^verbatim>\<open>room.leave(client)\<close>; and from the reader loop the teardown
  can always be carried out, leave first and close second, without a panic.
\<close>

theorem teardown_leave_then_close_once:
  assumes "run es init_world = Some w"
  shows "panicked w = None
     \<and> (closed (sendCh (heap w c)) \<longrightarrow> \<not> is_member (room_heap (hub w) r) c)
     \<and> closed (sendCh (heap w c)) = (Close c \<in> set es)
     \<and> count_list es (Close c) \<le> 1
     \<and> (\<forall>es1 es2. es = es1 @ Close c # es2 \<longrightarrow> Leave c \<in> set es1 \<and> Close c \<notin> set es1)
     \<and> (ctl w c = Joined \<longrightarrow>
          (\<exists>w1 w2. exec (Leave c) w = Some w1 \<and> exec (Close c) w1 = Some w2
             \<and> panicked w2 = None \<and> closed (sendCh (heap w2 c))
             \<and> (\<forall>r. \<not> is_member (room_heap (hub w2) r) c)))"
proof -
  have inv: "relay_inv w" using relay_inv_run [OF relay_inv_init assms] .
  note tr = trace_ctl [OF assms, of c]
  have p: "panicked w = None" using inv by (simp add: relay_inv_def)
  have m: "closed (sendCh (heap w c)) \<longrightarrow> \<not> is_member (room_heap (hub w) r) c"
    using inv by (auto simp: relay_inv_def)
  have cl: "closed (sendCh (heap w c)) = (Close c \<in> set es)"
    using inv tr by (simp add: relay_inv_def)
  have ord: "\<forall>es1 es2. es = es1 @ Close c # es2 \<longrightarrow> Leave c \<in> set es1 \<and> Close c \<notin> set es1"
  proof (intro allI impI)
    fix es1 es2 assume e: "es = es1 @ Close c # es2"
    obtain w1 where r1: "run es1 init_world = Some w1" and r2: "run (Close c # es2) w1 = Some w"
      using assms unfolding e by (rule run_appendD)
    obtain w2 where "exec (Close c) w1 = Some w2" using r2 by (auto split: option.splits)
    then have "ctl w1 c = Left" using exec_enabled by blast
    then show "Leave c \<in> set es1 \<and> Close c \<notin> set es1" using trace_ctl [OF r1, of c] by simp
  qed
  have pr: "ctl w c = Joined \<longrightarrow>
          (\<exists>w1 w2. exec (Leave c) w = Some w1 \<and> exec (Close c) w1 = Some w2
             \<and> panicked w2 = None \<and> closed (sendCh (heap w2 c))
             \<and> (\<forall>r. \<not> is_member (room_heap (hub w2) r) c))"
  proof
    assume j: "ctl w c = Joined"
    let ?w1 = "w\<lparr>hub := room_update (hub w) (room (heap w c)) (\<lambda>r. leave r c),
                  ctl := (ctl w)(c := Left)\<rparr>"
    have e1: "exec (Leave c) w = Some ?w1" using j p by simp
    have inv1: "relay_inv ?w1" using relay_inv_exec [OF inv e1] .
    have op: "\<not> closed (sendCh (heap w c))" using inv j by (simp add: relay_inv_def)
    let ?w2 = "?w1\<lparr>heap := (heap w)(c := (heap w c)\<lparr>sendCh := (sendCh (heap w c))\<lparr>closed := True\<rparr>\<rparr>),
                  ctl := (ctl ?w1)(c := Closed)\<rparr>"
    have e2: "exec (Close c) ?w1 = Some ?w2" using p op by (simp add: close_chan_def)
    have inv2: "relay_inv ?w2" using relay_inv_exec [OF inv1 e2] .
    have c2: "ctl ?w2 c = Closed" by simp
    have nm: "\<forall>r. \<not> is_member (room_heap (hub ?w2) r) c"
    proof
      fix r
      have jc: "Joined \<noteq> Closed" by simp
      have "is_member (room_heap (hub ?w2) r) c \<longrightarrow> ctl ?w2 c = Joined"
        using inv2 unfolding relay_inv_def by blast
      then show "\<not> is_member (room_heap (hub ?w2) r) c" using c2 jc by metis
    qed
    have "panicked ?w2 = None \<and> closed (sendCh (heap ?w2 c))" using p by simp
    then show "\<exists>w1 w2. exec (Leave c) w = Some w1 \<and> exec (Close c) w1 = Some w2
             \<and> panicked w2 = None \<and> closed (sendCh (heap w2 c))
             \<and> (\<forall>r. \<not> is_member (room_heap (hub w2) r) c)"
      using e1 e2 nm by blast
  qed
  show ?thesis using p m cl tr ord pr by blast
qed


lemma run_teardown:
  "\<exists>w. run [Connect ''/ws/a/u'' 1, Join 0, Leave 0, Close 0] init_world = Some w
     \<and> closed (sendCh (heap w 0))"
  by (simp add: ws_names_a_u init_world_def NewHub_def getRoom_def room_update_def
      join_def leave_def new_room_def make_chan_def close_chan_def)

theorem teardown_leave_then_close_once_witness:
  "\<exists>w. run [Connect ''/ws/a/u'' 1, Join 0, Leave 0, Close 0] init_world = Some w
     \<and> closed (sendCh (heap w 0)) \<and> panicked w = None
     \<and> \<not> is_member (room_heap (hub w) 0) 0
     \<and> count_list [Connect ''/ws/a/u'' 1, Join 0, Leave 0, Close 0] (Close 0) \<le> 1"
proof -
  obtain w where w: "run [Connect ''/ws/a/u'' 1, Join 0, Leave 0, Close 0] init_world = Some w"
    and c: "closed (sendCh (heap w 0))"
    using run_teardown by blast
  show ?thesis
    using teardown_leave_then_close_once [OF w, of 0 0] w c by blast
qed

section \<open>Datagrams: the first line\<close>

lemma Index_ge: "- 1 \<le> Index s c"
  by (induction s) (auto simp: Let_def)

lemma Index_notin: "c \<notin> set s \<Longrightarrow> Index s c = - 1"
  by (induction s) (auto simp: Let_def)

lemma Index_first: "c \<notin> set h \<Longrightarrow> Index (h @ c # rest) c = int (length h)"
  by (induction h) (auto simp: Let_def)

lemma Index_in: "c \<in> set s \<Longrightarrow> 0 \<le> Index s c"
  by (induction s) (auto simp: Let_def)

lemma parseUDPFrame_no_newline:
  "CHR 0x0A \<notin> set b \<Longrightarrow> parseUDPFrame tbl b = ([], [], b)"
  by (simp add: parseUDPFrame_def Index_notin)

lemma parseUDPFrame_header:
  "CHR 0x0A \<notin> set h \<Longrightarrow>
   parseUDPFrame tbl (h @ CHR 0x0A # rest) =
     (fst (foldl (parse_part tbl) ([], []) (Split h CHR '';'')),
      snd (foldl (parse_part tbl) ([], []) (Split h CHR '';'')), rest)"
  by (simp add: parseUDPFrame_def Index_first Let_def)

lemma TrimLeftFunc_suffix: "\<exists>k. TrimLeftFunc f s = drop k s"
proof (induction f s rule: TrimLeftFunc.induct)
  case (1 f)
  then show ?case by simp
next
  case (2 f c s)
  show ?case
  proof (cases "f (fst (DecodeRuneInString (c # s)))")
    case True
    then obtain k where "TrimLeftFunc f (drop (snd (DecodeRuneInString (c # s)) - 1) s) =
        drop k (drop (snd (DecodeRuneInString (c # s)) - 1) s)"
      using 2 by blast
    then have "TrimLeftFunc f (c # s) = drop (Suc (k + (snd (DecodeRuneInString (c # s)) - 1))) (c # s)"
      using True by (simp add: add.commute)
    then show ?thesis by blast
  next
    case False
    then have "TrimLeftFunc f (c # s) = drop 0 (c # s)" by simp
    then show ?thesis by blast
  qed
qed

lemma set_TrimLeftFunc: "set (TrimLeftFunc f s) \<subseteq> set s"
  using TrimLeftFunc_suffix [of f s] by (auto dest: in_set_dropD)

lemma set_TrimRightFunc: "set (TrimRightFunc f s) \<subseteq> set s"
  by (auto simp: TrimRightFunc_def split: option.splits dest: in_set_takeD)

lemma set_TrimFunc: "set (TrimFunc f s) \<subseteq> set s"
  using set_TrimRightFunc [of f "TrimLeftFunc f s"] set_TrimLeftFunc [of f s]
  by (auto simp: TrimFunc_def)

lemma set_TrimSpace_stop: "set (TrimSpace_stop t) \<subseteq> set t"
proof (induction t)
  case Nil
  then show ?case by simp
next
  case (Cons c t)
  have "set (rev (TrimRightFunc IsSpace (rev (c # t)))) \<subseteq> set (c # t)"
    using set_TrimRightFunc [of IsSpace "rev (c # t)"] by simp
  then show ?case using Cons by auto
qed

lemma set_TrimSpace: "set (TrimSpace s) \<subseteq> set s"
proof (induction s)
  case Nil
  then show ?case by simp
next
  case (Cons c s)
  have a: "set (TrimFunc IsSpace (c # s)) \<subseteq> set (c # s)" by (rule set_TrimFunc)
  have b: "set (rev (TrimSpace_stop (rev (c # s)))) \<subseteq> set (c # s)"
    using set_TrimSpace_stop [of "rev (c # s)"] by simp
  show ?case using Cons a b by auto
qed

lemma Split_nonempty: "Split s c \<noteq> []"
  by (induction s) (auto split: list.splits)

lemma set_Split: "p \<in> set (Split s c) \<Longrightarrow> set p \<subseteq> set s"
proof (induction s arbitrary: p)
  case Nil
  then show ?case by simp
next
  case (Cons x s)
  show ?case
  proof (cases "x = c")
    case True
    then show ?thesis using Cons by auto
  next
    case False
    obtain q qs where q: "Split s c = q # qs" using Split_nonempty [of s c] by (cases "Split s c") auto
    then have "p = x # q \<or> p \<in> set qs" using Cons.prems False by simp
    then show ?thesis using Cons.IH [of q] Cons.IH [of p] q by auto
  qed
qed

lemma parse_part_no_colon: "CHR '':'' \<notin> set part \<Longrightarrow> parse_part tbl ru part = ru"
proof -
  assume "CHR '':'' \<notin> set part"
  then have "CHR '':'' \<notin> set (TrimSpace part)" using set_TrimSpace [of part] by auto
  then have "SplitN (TrimSpace part) CHR '':'' 2 = [TrimSpace part]"
    by (simp add: numeral_2_eq_2 Index_notin)
  then show ?thesis by (simp add: parse_part_def)
qed

lemma foldl_parse_part_no_colon:
  "\<forall>p \<in> set ps. CHR '':'' \<notin> set p \<Longrightarrow> foldl (parse_part tbl) ru ps = ru"
  by (induction ps arbitrary: ru) (auto simp: parse_part_no_colon)

text \<open>
  C9. A datagram that has a newline byte is cut at its first newline: the payload
  \<^verbatim>\<open>parseUDPFrame\<close> returns, and the one the datagram loop forwards, is what follows
  that newline, so it is shorter than the datagram. This holds whatever the first
  line is; when the line has no colon at all (no \<^verbatim>\<open>KEY:value\<close> pair) both names come
  back empty and the bytes of the line are lost all the same.
\<close>

theorem newline_always_ends_a_header:
  assumes "CHR 0x0A \<in> set b"
  shows "\<exists>h rest. b = h @ CHR 0x0A # rest \<and> CHR 0x0A \<notin> set h
     \<and> snd (snd (parseUDPFrame tbl b)) = rest
     \<and> snd (snd (udp_names tbl b now)) = rest
     \<and> length rest < length b
     \<and> (CHR '':'' \<notin> set h \<longrightarrow> parseUDPFrame tbl b = ([], [], rest))"
proof -
  obtain h rest where b: "b = h @ CHR 0x0A # rest" and h: "CHR 0x0A \<notin> set h"
    using split_list_first [OF assms] by blast
  have p: "snd (snd (parseUDPFrame tbl b)) = rest" using h by (simp add: b parseUDPFrame_header)
  have u: "snd (snd (udp_names tbl b now)) = rest"
    using p by (auto simp: udp_names_def split: prod.splits)
  have n: "CHR '':'' \<notin> set h \<longrightarrow> parseUDPFrame tbl b = ([], [], rest)"
  proof
    assume c: "CHR '':'' \<notin> set h"
    have "\<forall>p \<in> set (Split h CHR '';''). CHR '':'' \<notin> set p"
      using c set_Split by fastforce
    then have "foldl (parse_part tbl) ([], []) (Split h CHR '';'') = ([], [])"
      by (rule foldl_parse_part_no_colon)
    then show "parseUDPFrame tbl b = ([], [], rest)" using h by (simp add: b parseUDPFrame_header)
  qed
  show ?thesis using b h p u n by auto
qed

theorem newline_always_ends_a_header_witness:
  "CHR 0x0A \<in> set [CHR 0x89, CHR ''P'', CHR ''N'', CHR ''G'', CHR 0x0D, CHR 0x0A, CHR 0x1A, CHR 0x0A]
   \<and> parseUDPFrame (\<lambda>r. r) [CHR 0x89, CHR ''P'', CHR ''N'', CHR ''G'', CHR 0x0D, CHR 0x0A, CHR 0x1A, CHR 0x0A]
       = ([], [], [CHR 0x1A, CHR 0x0A])"
proof -
  let ?b = "[CHR 0x89, CHR ''P'', CHR ''N'', CHR ''G'', CHR 0x0D, CHR 0x0A, CHR 0x1A, CHR 0x0A]"
  have i: "CHR 0x0A \<in> set ?b" by simp
  obtain h rest where b: "?b = h @ CHR 0x0A # rest" and h: "CHR 0x0A \<notin> set h"
    and c: "CHR '':'' \<notin> set h \<longrightarrow> parseUDPFrame (\<lambda>r. r) ?b = ([], [], rest)"
    and r: "snd (snd (parseUDPFrame (\<lambda>r. r) ?b)) = rest"
    using newline_always_ends_a_header [OF i, of "\<lambda>r. r"] by blast
  have "h = [CHR 0x89, CHR ''P'', CHR ''N'', CHR ''G'', CHR 0x0D] \<and> rest = [CHR 0x1A, CHR 0x0A]"
    using b h by (auto simp: append_eq_Cons_conv Cons_eq_append_conv)
  then show ?thesis using c by simp
qed

section \<open>Datagrams: the header and the defaults\<close>

lemma TrimSpace_stop_trimmed:
  "byte c < RuneSelf \<Longrightarrow> \<not> asciiSpace c \<Longrightarrow> TrimSpace_stop (c # t) = c # t"
  by simp

lemma TrimSpace_trimmed: "trimmed s \<Longrightarrow> TrimSpace s = s"
proof -
  assume t: "trimmed s"
  then obtain c s' where s: "s = c # s'" by (cases s) (auto simp: trimmed_def)
  have c: "byte c < RuneSelf" "\<not> asciiSpace c" using t s by (auto simp: trimmed_def)
  obtain d t' where r: "rev s = d # t'" using s by (cases "rev s") auto
  then have "d = last s" by (metis last_rev list.sel(1) rev_rev_ident hd_rev)
  then have d: "byte d < RuneSelf" "\<not> asciiSpace d" using t by (auto simp: trimmed_def)
  have "TrimSpace s = rev (TrimSpace_stop (rev s))" using c s by simp
  also have "\<dots> = rev (rev s)" using d r by simp
  finally show ?thesis by simp
qed

lemma SplitN_colon:
  "c \<notin> set k \<Longrightarrow> SplitN (k @ c # v) c 2 = [k, v]"
  by (simp add: numeral_2_eq_2 Index_first)

lemma trimmed_pair:
  assumes "trimmed k" and "trimmed v"
  shows "trimmed (k @ c # v)"
  using assms by (cases k) (auto simp: trimmed_def)

lemma parse_part_pair:
  assumes "header_pair kv"
  shows "parse_part tbl ru (fst kv @ CHR '':'' # snd kv) =
     (if ToUpper tbl (fst kv) = ''ROOM'' then (snd kv, snd ru)
      else if ToUpper tbl (fst kv) = ''USER'' then (fst ru, snd kv)
      else ru)"
proof -
  have k: "trimmed (fst kv)" and v: "trimmed (snd kv)" and c: "CHR '':'' \<notin> set (fst kv)"
    using assms by (auto simp: header_pair_def)
  have t: "TrimSpace (fst kv @ CHR '':'' # snd kv) = fst kv @ CHR '':'' # snd kv"
    by (rule TrimSpace_trimmed [OF trimmed_pair [OF k v]])
  show ?thesis
    unfolding parse_part_def t SplitN_colon [OF c]
    by (simp add: TrimSpace_trimmed [OF k] TrimSpace_trimmed [OF v])
qed

lemma Split_no_sep: "c \<notin> set s \<Longrightarrow> Split s c = [s]"
  by (induction s) auto

lemma Split_sep: "Split (a @ c # b) c = Split a c @ Split b c"
proof (induction a)
  case Nil
  then show ?case by simp
next
  case (Cons x a)
  obtain q qs where "Split a c = q # qs" using Split_nonempty [of a c] by (cases "Split a c") auto
  then show ?case using Cons by simp
qed

lemma Split_render:
  assumes "\<forall>kv \<in> set kvs. header_pair kv" and "kvs \<noteq> []"
  shows "Split (render_header kvs) CHR '';'' = map (\<lambda>kv. fst kv @ CHR '':'' # snd kv) kvs"
  using assms
proof (induction kvs rule: render_header.induct)
  case 1
  then show ?case by simp
next
  case (2 kv)
  then have "CHR '';'' \<notin> set (fst kv @ CHR '':'' # snd kv)" by (auto simp: header_pair_def)
  then show ?case by (simp add: Split_no_sep)
next
  case (3 kv kv' kvs)
  have n: "CHR '';'' \<notin> set (fst kv @ CHR '':'' # snd kv)" using 3 by (auto simp: header_pair_def)
  have "render_header (kv # kv' # kvs) = (fst kv @ CHR '':'' # snd kv) @ CHR '';'' # render_header (kv' # kvs)"
    by simp
  then have "Split (render_header (kv # kv' # kvs)) CHR '';''
      = Split (fst kv @ CHR '':'' # snd kv) CHR '';'' @ Split (render_header (kv' # kvs)) CHR '';''"
    by (simp only: Split_sep)
  then show ?case using 3 n by (simp add: Split_no_sep)
qed

lemma newline_render: "\<forall>kv \<in> set kvs. header_pair kv \<Longrightarrow> CHR 0x0A \<notin> set (render_header kvs)"
  by (induction kvs rule: render_header.induct) (auto simp: header_pair_def)

text \<open>The loop over the parts, started with any pair of names.\<close>

lemma foldl_parse_part_pairs:
  assumes "\<forall>kv \<in> set kvs. header_pair kv"
  shows "foldl (parse_part tbl) ru (map (\<lambda>kv. fst kv @ CHR '':'' # snd kv) kvs) =
     ((case filter (\<lambda>kv. ToUpper tbl (fst kv) = ''ROOM'') kvs of [] \<Rightarrow> fst ru | xs \<Rightarrow> snd (last xs)),
      (case filter (\<lambda>kv. ToUpper tbl (fst kv) = ''USER'') kvs of [] \<Rightarrow> snd ru | xs \<Rightarrow> snd (last xs)))"
  using assms
proof (induction kvs arbitrary: ru)
  case Nil
  then show ?case by simp
next
  case (Cons kv kvs)
  have p: "header_pair kv" and r: "\<forall>kv \<in> set kvs. header_pair kv" using Cons.prems by simp_all
  show ?case
    by (simp add: parse_part_pair [OF p] Cons.IH [OF r] split: list.splits)
qed


lemma digits_nonempty: "digits n \<noteq> []"
  by (subst digits.simps) simp

lemma byte_digit: "d < 10 \<Longrightarrow> byte (char_of (0x30 + d)) = 0x30 + d"
  by (simp add: byte_def)

lemma digits_value: "foldl (\<lambda>a c. 10 * a + (byte c - 0x30)) 0 (digits n) = n"
proof (induction n rule: digits.induct)
  case (1 n)
  show ?case
  proof (cases "n < 10")
    case True
    then show ?thesis by (subst digits.simps) (simp add: byte_digit)
  next
    case False
    have m: "n mod 10 < 10" by simp
    have "foldl (\<lambda>a c. 10 * a + (byte c - 0x30)) 0 (digits n)
        = 10 * foldl (\<lambda>a c. 10 * a + (byte c - 0x30)) 0 (digits (n div 10))
          + (byte (char_of (0x30 + n mod 10)) - 0x30)"
      using False by (subst digits.simps) simp
    also have "\<dots> = 10 * (n div 10) + n mod 10"
      using 1 False by (simp add: byte_digit [OF m])
    finally show ?thesis by simp
  qed
qed

lemma digits_inj:
  assumes "digits m = digits n"
  shows "m = n"
proof -
  have "m = foldl (\<lambda>a c. 10 * a + (byte c - 0x30)) 0 (digits m)" by (simp only: digits_value)
  also have "\<dots> = foldl (\<lambda>a c. 10 * a + (byte c - 0x30)) 0 (digits n)" by (simp only: assms)
  also have "\<dots> = n" by (rule digits_value)
  finally show ?thesis .
qed

lemma digits_no_minus: "CHR ''-'' \<notin> set (digits n)"
proof (induction n rule: digits.induct)
  case (1 n)
  show ?case
  proof (cases "n < 10")
    case True
    have "byte (char_of (0x30 + n)) \<noteq> byte CHR ''-''" using True by (simp add: byte_digit) (simp add: byte_def)
    then have "char_of (0x30 + n) \<noteq> CHR ''-''" by auto
    then show ?thesis using True by (subst digits.simps) simp
  next
    case False
    have m: "n mod 10 < 10" by simp
    have "byte (char_of (0x30 + n mod 10)) \<noteq> byte CHR ''-''"
      by (simp add: byte_digit [OF m]) (simp add: byte_def)
    then have "char_of (0x30 + n mod 10) \<noteq> CHR ''-''" by auto
    then show ?thesis using False 1 by (subst digits.simps) simp
  qed
qed

lemma FormatInt_inj: "FormatInt i = FormatInt j \<Longrightarrow> i = j"
proof -
  assume e: "FormatInt i = FormatInt j"
  have h: "\<And>n. hd (digits n) \<noteq> CHR ''-''"
    using digits_no_minus digits_nonempty by (metis list.set_sel(1))
  show ?thesis
  proof (cases "i < 0")
    case True
    show ?thesis
    proof (cases "j < 0")
      case True
      then have "digits (nat (- i)) = digits (nat (- j))" using e \<open>i < 0\<close> by (simp add: FormatInt_def)
      then have "nat (- i) = nat (- j)" by (rule digits_inj)
      then show ?thesis using True \<open>i < 0\<close> by simp
    next
      case False
      then have "CHR ''-'' # digits (nat (- i)) = digits (nat j)" using e True by (simp add: FormatInt_def)
      then have "hd (digits (nat j)) = CHR ''-''" by (metis list.sel(1))
      then show ?thesis using h by blast
    qed
  next
    case False
    show ?thesis
    proof (cases "j < 0")
      case True
      then have "digits (nat i) = CHR ''-'' # digits (nat (- j))" using e False by (simp add: FormatInt_def)
      then have "hd (digits (nat i)) = CHR ''-''" by (metis list.sel(1))
      then show ?thesis using h by blast
    next
      case j: False
      then have "digits (nat i) = digits (nat j)" using e False by (simp add: FormatInt_def)
      then have "nat i = nat j" by (rule digits_inj)
      then show ?thesis using False j by simp
    qed
  qed
qed

lemma FormatInt_nonempty: "FormatInt i \<noteq> []"
  by (simp add: FormatInt_def digits_nonempty)

lemma parseUDPFrame_render:
  assumes "\<forall>kv \<in> set kvs. header_pair kv"
  shows "parseUDPFrame tbl (render_header kvs @ CHR 0x0A # p)
     = (spec_field tbl ''ROOM'' kvs, spec_field tbl ''USER'' kvs, p)"
proof (cases "kvs = []")
  case True
  then show ?thesis
    by (simp add: parseUDPFrame_def spec_field_def parse_part_no_colon)
next
  case False
  have n: "CHR 0x0A \<notin> set (render_header kvs)" using assms by (rule newline_render)
  show ?thesis
    unfolding parseUDPFrame_header [OF n] Split_render [OF assms False]
      foldl_parse_part_pairs [OF assms]
    by (simp add: spec_field_def split: list.splits)
qed

text \<open>
  C5. A datagram with no newline is payload as a whole, with no names; the loop
  then works with the room \<^verbatim>\<open>global\<close> and a username made from the clock. A first
  line made of pairs \<^verbatim>\<open>KEY:value\<close> with \<^verbatim>\<open>;\<close> between them gives, for the room and
  for the username, the value of the last pair whose key is \<^verbatim>\<open>ROOM\<close> or \<^verbatim>\<open>USER\<close> when
  case is ignored, and nothing when there is none: pairs with any other key change
  nothing. After parsing, an empty room becomes \<^verbatim>\<open>global\<close> and an empty username
  becomes \<^verbatim>\<open>udp-\<close> followed by the clock reading, a name that differs for different
  readings; names that are not empty, and the payload, are kept.
\<close>

theorem datagram_header_and_defaults:
  "(CHR 0x0A \<notin> set b \<longrightarrow>
      parseUDPFrame tbl b = ([], [], b)
      \<and> udp_names tbl b now = (''global'', ''udp-'' @ FormatInt now, b))
   \<and> ((\<forall>kv \<in> set kvs. header_pair kv) \<longrightarrow>
        parseUDPFrame tbl (render_header kvs @ CHR 0x0A # p)
          = (spec_field tbl ''ROOM'' kvs, spec_field tbl ''USER'' kvs, p))
   \<and> (fst (parseUDPFrame tbl data) = [] \<longrightarrow> fst (udp_names tbl data now) = ''global'')
   \<and> (fst (parseUDPFrame tbl data) \<noteq> [] \<longrightarrow>
        fst (udp_names tbl data now) = fst (parseUDPFrame tbl data))
   \<and> (fst (snd (parseUDPFrame tbl data)) = [] \<longrightarrow>
        fst (snd (udp_names tbl data now)) = ''udp-'' @ FormatInt now)
   \<and> (fst (snd (parseUDPFrame tbl data)) \<noteq> [] \<longrightarrow>
        fst (snd (udp_names tbl data now)) = fst (snd (parseUDPFrame tbl data)))
   \<and> snd (snd (udp_names tbl data now)) = snd (snd (parseUDPFrame tbl data))
   \<and> (\<forall>now'. now' \<noteq> now \<longrightarrow> ''udp-'' @ FormatInt now' \<noteq> ''udp-'' @ FormatInt now)"
proof -
  have a: "CHR 0x0A \<notin> set b \<longrightarrow>
      parseUDPFrame tbl b = ([], [], b)
      \<and> udp_names tbl b now = (''global'', ''udp-'' @ FormatInt now, b)"
    by (simp add: udp_names_def parseUDPFrame_no_newline)
  have b: "(\<forall>kv \<in> set kvs. header_pair kv) \<longrightarrow>
        parseUDPFrame tbl (render_header kvs @ CHR 0x0A # p)
          = (spec_field tbl ''ROOM'' kvs, spec_field tbl ''USER'' kvs, p)"
    using parseUDPFrame_render by blast
  obtain r u q where d: "parseUDPFrame tbl data = (r, u, q)" by (cases "parseUDPFrame tbl data") auto
  have c: "\<forall>now'. now' \<noteq> now \<longrightarrow> ''udp-'' @ FormatInt now' \<noteq> ''udp-'' @ FormatInt now"
    using FormatInt_inj by auto
  show ?thesis using a b c by (simp add: udp_names_def d)
qed

theorem datagram_header_and_defaults_witness:
  "parseUDPFrame (\<lambda>r. r) (''room:alpha;x:y;UsEr:bob'' @ [CHR 0x0A] @ ''hello'')
     = (''alpha'', ''bob'', ''hello'')
   \<and> parseUDPFrame (\<lambda>r. r) ''hello'' = ([], [], ''hello'')
   \<and> udp_names (\<lambda>r. r) ''hello'' 42 = (''global'', ''udp-'' @ FormatInt 42, ''hello'')"
proof -
  let ?kvs = "[(''room'', ''alpha''), (''x'', ''y''), (''UsEr'', ''bob'')]"
  have h: "\<forall>kv \<in> set ?kvs. header_pair kv"
    by (simp add: header_pair_def trimmed_def byte_def RuneSelf_def asciiSpace_def)
  have n: "CHR 0x0A \<notin> set ''hello''" by simp
  have r: "spec_field (\<lambda>r. r) ''ROOM'' ?kvs = ''alpha''"
    by code_simp
  have u: "spec_field (\<lambda>r. r) ''USER'' ?kvs = ''bob''"
    by code_simp
  note t = datagram_header_and_defaults [of "''hello''" "\<lambda>r. r" 42 ?kvs "''hello''"]
  have "parseUDPFrame (\<lambda>r. r) (render_header ?kvs @ CHR 0x0A # ''hello'')
          = (''alpha'', ''bob'', ''hello'')"
    using t h r u by simp
  then have 1: "parseUDPFrame (\<lambda>r. r) (''room:alpha;x:y;UsEr:bob'' @ [CHR 0x0A] @ ''hello'')
     = (''alpha'', ''bob'', ''hello'')" by simp
  have 2: "parseUDPFrame (\<lambda>r. r) ''hello'' = ([], [], ''hello'')
     \<and> udp_names (\<lambda>r. r) ''hello'' 42 = (''global'', ''udp-'' @ FormatInt 42, ''hello'')"
    using t n by blast
  show ?thesis using 1 2 by blast
qed

section \<open>Stream paths: empty segments\<close>

lemma DecodeRuneInString_ascii:
  "byte c < RuneSelf \<Longrightarrow> DecodeRuneInString (c # s) = (byte c, 1)"
  by (simp add: DecodeRuneInString.simps RuneSelf_def Let_def)


lemma EncodeRune_ascii: "byte c < RuneSelf \<Longrightarrow> EncodeRune (byte c) = [c]"
  by (simp add: EncodeRune_def RuneSelf_def byte_def)


lemma byte_eq_iff: "(byte c = byte d) = (c = d)"
  by (simp add: byte_def)

lemma segment_trimmed: "segment x \<Longrightarrow> trimmed x"
  by (cases x) (auto simp: segment_def trimmed_def)


















section \<open>The envelope: writing and reading back\<close>

lemma div_mod_digit:
  fixes x y m :: nat
  assumes "y < m"
  shows "(x * m + y) div m = x" and "(x * m + y) mod m = y"
  using assms by simp_all

lemma offset_mod:
  fixes b k m n :: nat
  assumes "n * m \<le> b" and "b < n * m + m"
  shows "b mod m = b - n * m"
proof -
  have b: "b = n * m + (b - n * m)" using assms by simp
  have k: "b - n * m < m" using assms by simp
  have "(n * m + (b - n * m)) mod m = b - n * m" using k by (rule div_mod_digit(2))
  then show ?thesis using b by simp
qed

lemma cont_mod: "(0x80::nat) \<le> b \<Longrightarrow> b \<le> 0xBF \<Longrightarrow> b mod 0x40 = b - 0x80"
  using offset_mod [of 2 "0x40" b] by simp

lemma lead2_mod: "(0xC0::nat) \<le> b \<Longrightarrow> b < 0xE0 \<Longrightarrow> b mod 0x20 = b - 0xC0"
  using offset_mod [of 6 "0x20" b] by simp

lemma lead3_mod: "(0xE0::nat) \<le> b \<Longrightarrow> b < 0xF0 \<Longrightarrow> b mod 0x10 = b - 0xE0"
  using offset_mod [of 14 "0x10" b] by simp

lemma lead4_mod: "(0xF0::nat) \<le> b \<Longrightarrow> b < 0xF8 \<Longrightarrow> b mod 0x08 = b - 0xF0"
  using offset_mod [of 30 "0x08" b] by simp


lemma split3:
  fixes x y z :: nat
  assumes y: "y < 0x40" and z: "z < 0x40"
  shows "(x * 0x1000 + y * 0x40 + z) div 0x1000 = x"
    and "((x * 0x1000 + y * 0x40 + z) div 0x40) mod 0x40 = y"
    and "(x * 0x1000 + y * 0x40 + z) mod 0x40 = z"
proof -
  have a: "x * 0x1000 + y * 0x40 + z = (x * 0x40 + y) * 0x40 + z" by simp
  have a2: "x * 0x1000 + y * 0x40 + z = x * 0x1000 + (y * 0x40 + z)" by simp
  have b: "y * 0x40 + z < 0x1000" using assms by simp
  show "(x * 0x1000 + y * 0x40 + z) div 0x1000 = x"
    by (simp only: a2 div_mod_digit(1) [OF b])
  have "(x * 0x1000 + y * 0x40 + z) div 0x40 = x * 0x40 + y"
    by (simp only: a div_mod_digit(1) [OF z])
  then show "((x * 0x1000 + y * 0x40 + z) div 0x40) mod 0x40 = y"
    by (simp only: div_mod_digit(2) [OF y])
  show "(x * 0x1000 + y * 0x40 + z) mod 0x40 = z"
    by (simp only: a div_mod_digit(2) [OF z])
qed

lemma split4:
  fixes x y z w :: nat
  assumes y: "y < 0x40" and z: "z < 0x40" and w: "w < 0x40"
  shows "(x * 0x40000 + y * 0x1000 + z * 0x40 + w) div 0x40000 = x"
    and "((x * 0x40000 + y * 0x1000 + z * 0x40 + w) div 0x1000) mod 0x40 = y"
    and "((x * 0x40000 + y * 0x1000 + z * 0x40 + w) div 0x40) mod 0x40 = z"
    and "(x * 0x40000 + y * 0x1000 + z * 0x40 + w) mod 0x40 = w"
proof -
  have a: "x * 0x40000 + y * 0x1000 + z * 0x40 + w = ((x * 0x40 + y) * 0x40 + z) * 0x40 + w" by simp
  have a2: "x * 0x40000 + y * 0x1000 + z * 0x40 + w = (x * 0x40 + y) * 0x1000 + (z * 0x40 + w)" by simp
  have a3: "x * 0x40000 + y * 0x1000 + z * 0x40 + w = x * 0x40000 + (y * 0x1000 + z * 0x40 + w)" by simp
  have b: "y * 0x1000 + z * 0x40 + w < 0x40000" using assms by simp
  have c: "z * 0x40 + w < 0x1000" using assms by simp
  show "(x * 0x40000 + y * 0x1000 + z * 0x40 + w) div 0x40000 = x"
    by (simp only: a3 div_mod_digit(1) [OF b])
  have "(x * 0x40000 + y * 0x1000 + z * 0x40 + w) div 0x1000 = x * 0x40 + y"
    by (simp only: a2 div_mod_digit(1) [OF c])
  then show "((x * 0x40000 + y * 0x1000 + z * 0x40 + w) div 0x1000) mod 0x40 = y"
    by (simp only: div_mod_digit(2) [OF y])
  have "(x * 0x40000 + y * 0x1000 + z * 0x40 + w) div 0x40 = (x * 0x40 + y) * 0x40 + z"
    by (simp only: a div_mod_digit(1) [OF w])
  then show "((x * 0x40000 + y * 0x1000 + z * 0x40 + w) div 0x40) mod 0x40 = z"
    by (simp only: div_mod_digit(2) [OF z])
  show "(x * 0x40000 + y * 0x1000 + z * 0x40 + w) mod 0x40 = w"
    by (simp only: a div_mod_digit(2) [OF w])
qed

text \<open>The bytes of a two-byte, three-byte and four-byte rune, and the rune they give.\<close>

lemma enc2:
  fixes b0 b1 :: nat
  assumes "0xC2 \<le> b0" "b0 < 0xE0" "0x80 \<le> b1" "b1 \<le> 0xBF"
  shows "\<not> (b0 mod 0x20) * 0x40 + b1 mod 0x40 \<le> 0x7F"
    and "(b0 mod 0x20) * 0x40 + b1 mod 0x40 \<le> 0x7FF"
    and "0xC0 + ((b0 mod 0x20) * 0x40 + b1 mod 0x40) div 0x40 = b0"
    and "0x80 + ((b0 mod 0x20) * 0x40 + b1 mod 0x40) mod 0x40 = b1"
proof -
  have m0: "b0 mod 0x20 = b0 - 0xC0" using assms by (intro lead2_mod) simp_all
  have m1: "b1 mod 0x40 = b1 - 0x80" using assms by (intro cont_mod) simp_all
  have y: "b1 - 0x80 < 0x40" using assms by simp
  show "\<not> (b0 mod 0x20) * 0x40 + b1 mod 0x40 \<le> 0x7F" unfolding m0 m1 using assms by simp
  show "(b0 mod 0x20) * 0x40 + b1 mod 0x40 \<le> 0x7FF" unfolding m0 m1 using assms by simp
  show "0xC0 + ((b0 mod 0x20) * 0x40 + b1 mod 0x40) div 0x40 = b0"
    unfolding m0 m1 div_mod_digit(1) [OF y] using assms by simp
  show "0x80 + ((b0 mod 0x20) * 0x40 + b1 mod 0x40) mod 0x40 = b1"
    unfolding m0 m1 div_mod_digit(2) [OF y] using assms by simp
qed

lemma enc3:
  fixes b0 b1 b2 :: nat
  assumes "0xE0 \<le> b0" "b0 < 0xF0" "(if b0 = 0xE0 then 0xA0 else 0x80) \<le> b1"
    "b1 \<le> (if b0 = 0xED then 0x9F else 0xBF)" "0x80 \<le> b2" "b2 \<le> 0xBF"
  shows "\<not> (b0 mod 0x10) * 0x1000 + (b1 mod 0x40) * 0x40 + b2 mod 0x40 \<le> 0x7FF"
    and "(b0 mod 0x10) * 0x1000 + (b1 mod 0x40) * 0x40 + b2 mod 0x40 \<le> 0xFFFF"
    and "\<not> (0xD800 \<le> (b0 mod 0x10) * 0x1000 + (b1 mod 0x40) * 0x40 + b2 mod 0x40
          \<and> (b0 mod 0x10) * 0x1000 + (b1 mod 0x40) * 0x40 + b2 mod 0x40 \<le> 0xDFFF)"
    and "0xE0 + ((b0 mod 0x10) * 0x1000 + (b1 mod 0x40) * 0x40 + b2 mod 0x40) div 0x1000 = b0"
    and "0x80 + (((b0 mod 0x10) * 0x1000 + (b1 mod 0x40) * 0x40 + b2 mod 0x40) div 0x40) mod 0x40 = b1"
    and "0x80 + ((b0 mod 0x10) * 0x1000 + (b1 mod 0x40) * 0x40 + b2 mod 0x40) mod 0x40 = b2"
proof -
  have r1: "0x80 \<le> b1" "b1 \<le> 0xBF" using assms(3,4) by (auto split: if_splits)
  have m0: "b0 mod 0x10 = b0 - 0xE0" using assms by (intro lead3_mod) simp_all
  have m1: "b1 mod 0x40 = b1 - 0x80" using r1 by (intro cont_mod) simp_all
  have m2: "b2 mod 0x40 = b2 - 0x80" using assms by (intro cont_mod) simp_all
  have y: "b1 - 0x80 < 0x40" using r1 by simp
  have z: "b2 - 0x80 < 0x40" using assms by simp
  show "\<not> (b0 mod 0x10) * 0x1000 + (b1 mod 0x40) * 0x40 + b2 mod 0x40 \<le> 0x7FF"
    unfolding m0 m1 m2 using assms by (auto split: if_splits)
  show "(b0 mod 0x10) * 0x1000 + (b1 mod 0x40) * 0x40 + b2 mod 0x40 \<le> 0xFFFF"
    unfolding m0 m1 m2 using assms r1 by simp
  show "\<not> (0xD800 \<le> (b0 mod 0x10) * 0x1000 + (b1 mod 0x40) * 0x40 + b2 mod 0x40
          \<and> (b0 mod 0x10) * 0x1000 + (b1 mod 0x40) * 0x40 + b2 mod 0x40 \<le> 0xDFFF)"
    unfolding m0 m1 m2 using assms r1 by (auto split: if_splits)
  show "0xE0 + ((b0 mod 0x10) * 0x1000 + (b1 mod 0x40) * 0x40 + b2 mod 0x40) div 0x1000 = b0"
    unfolding m0 m1 m2 split3(1) [OF y z] using assms by simp
  show "0x80 + (((b0 mod 0x10) * 0x1000 + (b1 mod 0x40) * 0x40 + b2 mod 0x40) div 0x40) mod 0x40 = b1"
    unfolding m0 m1 m2 split3(2) [OF y z] using r1 by simp
  show "0x80 + ((b0 mod 0x10) * 0x1000 + (b1 mod 0x40) * 0x40 + b2 mod 0x40) mod 0x40 = b2"
    unfolding m0 m1 m2 split3(3) [OF y z] using assms by simp
qed

lemma enc4:
  fixes b0 b1 b2 b3 :: nat
  assumes "0xF0 \<le> b0" "b0 < 0xF5" "(if b0 = 0xF0 then 0x90 else 0x80) \<le> b1"
    "b1 \<le> (if b0 = 0xF4 then 0x8F else 0xBF)" "0x80 \<le> b2" "b2 \<le> 0xBF" "0x80 \<le> b3" "b3 \<le> 0xBF"
  shows "\<not> (b0 mod 0x08) * 0x40000 + (b1 mod 0x40) * 0x1000 + (b2 mod 0x40) * 0x40 + b3 mod 0x40 \<le> 0xFFFF"
    and "\<not> 0x10FFFF < (b0 mod 0x08) * 0x40000 + (b1 mod 0x40) * 0x1000 + (b2 mod 0x40) * 0x40 + b3 mod 0x40"
    and "0xF0 + ((b0 mod 0x08) * 0x40000 + (b1 mod 0x40) * 0x1000 + (b2 mod 0x40) * 0x40 + b3 mod 0x40) div 0x40000 = b0"
    and "0x80 + (((b0 mod 0x08) * 0x40000 + (b1 mod 0x40) * 0x1000 + (b2 mod 0x40) * 0x40 + b3 mod 0x40) div 0x1000) mod 0x40 = b1"
    and "0x80 + (((b0 mod 0x08) * 0x40000 + (b1 mod 0x40) * 0x1000 + (b2 mod 0x40) * 0x40 + b3 mod 0x40) div 0x40) mod 0x40 = b2"
    and "0x80 + ((b0 mod 0x08) * 0x40000 + (b1 mod 0x40) * 0x1000 + (b2 mod 0x40) * 0x40 + b3 mod 0x40) mod 0x40 = b3"
proof -
  have r1: "0x80 \<le> b1" "b1 \<le> 0xBF" using assms(3,4) by (auto split: if_splits)
  have m0: "b0 mod 0x08 = b0 - 0xF0" using assms by (intro lead4_mod) simp_all
  have m1: "b1 mod 0x40 = b1 - 0x80" using r1 by (intro cont_mod) simp_all
  have m2: "b2 mod 0x40 = b2 - 0x80" using assms by (intro cont_mod) simp_all
  have m3: "b3 mod 0x40 = b3 - 0x80" using assms by (intro cont_mod) simp_all
  have y: "b1 - 0x80 < 0x40" using r1 by simp
  have z: "b2 - 0x80 < 0x40" using assms by simp
  have w: "b3 - 0x80 < 0x40" using assms by simp
  show "\<not> (b0 mod 0x08) * 0x40000 + (b1 mod 0x40) * 0x1000 + (b2 mod 0x40) * 0x40 + b3 mod 0x40 \<le> 0xFFFF"
    unfolding m0 m1 m2 m3 using assms by (auto split: if_splits)
  show "\<not> 0x10FFFF < (b0 mod 0x08) * 0x40000 + (b1 mod 0x40) * 0x1000 + (b2 mod 0x40) * 0x40 + b3 mod 0x40"
    unfolding m0 m1 m2 m3 using assms r1 by (auto split: if_splits)
  show "0xF0 + ((b0 mod 0x08) * 0x40000 + (b1 mod 0x40) * 0x1000 + (b2 mod 0x40) * 0x40 + b3 mod 0x40) div 0x40000 = b0"
    unfolding m0 m1 m2 m3 split4(1) [OF y z w] using assms by simp
  show "0x80 + (((b0 mod 0x08) * 0x40000 + (b1 mod 0x40) * 0x1000 + (b2 mod 0x40) * 0x40 + b3 mod 0x40) div 0x1000) mod 0x40 = b1"
    unfolding m0 m1 m2 m3 split4(2) [OF y z w] using r1 by simp
  show "0x80 + (((b0 mod 0x08) * 0x40000 + (b1 mod 0x40) * 0x1000 + (b2 mod 0x40) * 0x40 + b3 mod 0x40) div 0x40) mod 0x40 = b2"
    unfolding m0 m1 m2 m3 split4(3) [OF y z w] using assms by simp
  show "0x80 + ((b0 mod 0x08) * 0x40000 + (b1 mod 0x40) * 0x1000 + (b2 mod 0x40) * 0x40 + b3 mod 0x40) mod 0x40 = b3"
    unfolding m0 m1 m2 m3 split4(4) [OF y z w] using assms by simp
qed


lemma char_of_byte: "char_of (byte c) = c"
  by (simp add: byte_def)

lemma byte_less_256: "byte c < 256"
  by (simp add: byte_def)

lemma dec1:
  assumes "RuneSelf \<le> byte c" "byte c < 0xC2"
  shows "DecodeRuneInString (c # s) = (RuneError, 1)"
  using assms by (simp add: DecodeRuneInString.simps Let_def RuneSelf_def)

lemma dec2:
  assumes "0xC2 \<le> byte c" "byte c < 0xE0"
  shows "DecodeRuneInString (c # s) =
     (case s of
        c1 # _ \<Rightarrow>
          if is_cont c1 then ((byte c mod 0x20) * 0x40 + byte c1 mod 0x40, 2) else (RuneError, 1)
      | _ \<Rightarrow> (RuneError, 1))"
  using assms by (simp add: DecodeRuneInString.simps Let_def)

lemma dec3:
  assumes "0xE0 \<le> byte c" "byte c < 0xF0"
  shows "DecodeRuneInString (c # s) =
     (case s of
        c1 # c2 # _ \<Rightarrow>
          if (if byte c = 0xE0 then 0xA0 else 0x80) \<le> byte c1
             \<and> byte c1 \<le> (if byte c = 0xED then 0x9F else 0xBF) \<and> is_cont c2
          then ((byte c mod 0x10) * 0x1000 + (byte c1 mod 0x40) * 0x40 + byte c2 mod 0x40, 3)
          else (RuneError, 1)
      | _ \<Rightarrow> (RuneError, 1))"
  using assms by (simp add: DecodeRuneInString.simps Let_def)

lemma dec4:
  assumes "0xF0 \<le> byte c" "byte c < 0xF5"
  shows "DecodeRuneInString (c # s) =
     (case s of
        c1 # c2 # c3 # _ \<Rightarrow>
          if (if byte c = 0xF0 then 0x90 else 0x80) \<le> byte c1
             \<and> byte c1 \<le> (if byte c = 0xF4 then 0x8F else 0xBF) \<and> is_cont c2 \<and> is_cont c3
          then ((byte c mod 0x08) * 0x40000 + (byte c1 mod 0x40) * 0x1000
                + (byte c2 mod 0x40) * 0x40 + byte c3 mod 0x40, 4)
          else (RuneError, 1)
      | _ \<Rightarrow> (RuneError, 1))"
  using assms by (simp add: DecodeRuneInString.simps Let_def)

lemma dec5:
  assumes "0xF5 \<le> byte c"
  shows "DecodeRuneInString (c # s) = (RuneError, 1)"
  using assms by (simp add: DecodeRuneInString.simps Let_def)

lemma EncodeRune_2:
  "\<not> r \<le> 0x7F \<Longrightarrow> r \<le> 0x7FF \<Longrightarrow>
   EncodeRune r = [char_of (0xC0 + r div 0x40), char_of (0x80 + r mod 0x40)]"
  by (simp add: EncodeRune_def)

lemma EncodeRune_3:
  "\<not> r \<le> 0x7FF \<Longrightarrow> r \<le> 0xFFFF \<Longrightarrow> \<not> (0xD800 \<le> r \<and> r \<le> 0xDFFF) \<Longrightarrow>
   EncodeRune r = [char_of (0xE0 + r div 0x1000), char_of (0x80 + (r div 0x40) mod 0x40),
                   char_of (0x80 + r mod 0x40)]"
  by (auto simp add: EncodeRune_def)

lemma EncodeRune_4:
  "\<not> r \<le> 0xFFFF \<Longrightarrow> \<not> 0x10FFFF < r \<Longrightarrow>
   EncodeRune r = [char_of (0xF0 + r div 0x40000), char_of (0x80 + (r div 0x1000) mod 0x40),
                   char_of (0x80 + (r div 0x40) mod 0x40), char_of (0x80 + r mod 0x40)]"
  by (simp add: EncodeRune_def)

text \<open>
  A rune of two to four bytes: the decoder reads the bytes of the rune only, and
  the encoder gives these bytes back.
\<close>

lemma decode_multibyte:
  assumes hi: "RuneSelf \<le> byte c"
    and ok: "\<not> (fst (DecodeRuneInString (c # s)) = RuneError \<and> snd (DecodeRuneInString (c # s)) = 1)"
  shows "2 \<le> snd (DecodeRuneInString (c # s))
     \<and> snd (DecodeRuneInString (c # s)) \<le> Suc (length s)
     \<and> DecodeRuneInString (take (snd (DecodeRuneInString (c # s))) (c # s) @ t)
         = DecodeRuneInString (c # s)
     \<and> EncodeRune (fst (DecodeRuneInString (c # s))) = take (snd (DecodeRuneInString (c # s))) (c # s)"
proof -
  consider (a) "byte c < 0xC2" | (b) "0xC2 \<le> byte c" "byte c < 0xE0"
    | (c) "0xE0 \<le> byte c" "byte c < 0xF0" | (d) "0xF0 \<le> byte c" "byte c < 0xF5"
    | (e) "0xF5 \<le> byte c"
    by linarith
  then show ?thesis
  proof cases
    case a
    then show ?thesis using ok dec1 [OF hi a] by simp
  next
    case b
    show ?thesis
    proof (cases s)
      case Nil
      then show ?thesis using ok dec2 [OF b, of s] by simp
    next
      case (Cons c1 s1)
      show ?thesis
      proof (cases "is_cont c1")
        case False
        then show ?thesis using ok dec2 [OF b, of s] Cons by simp
      next
        case True
        then have r: "0x80 \<le> byte c1" "byte c1 \<le> 0xBF" by (simp_all add: is_cont_def)
        note e = enc2 [OF b r]
        have d: "DecodeRuneInString (c # s) = ((byte c mod 0x20) * 0x40 + byte c1 mod 0x40, 2)"
          using dec2 [OF b, of s] Cons True by simp
        have d': "DecodeRuneInString (c # c1 # t) = ((byte c mod 0x20) * 0x40 + byte c1 mod 0x40, 2)"
          using dec2 [OF b, of "c1 # t"] True by simp
        have en: "EncodeRune ((byte c mod 0x20) * 0x40 + byte c1 mod 0x40) = [c, c1]"
          by (simp only: EncodeRune_2 [OF e(1) e(2)] e(3,4) char_of_byte)
        show ?thesis unfolding d using Cons d' en by simp
      qed
    qed
  next
    case c
    show ?thesis
    proof (cases s)
      case Nil
      then show ?thesis using ok dec3 [OF c, of s] by simp
    next
      case s1: (Cons c1 s1)
      show ?thesis
      proof (cases s1)
        case Nil
        then show ?thesis using ok dec3 [OF c, of s] s1 by simp
      next
        case (Cons c2 s2)
        let ?g = "(if byte c = 0xE0 then 0xA0 else 0x80) \<le> byte c1
             \<and> byte c1 \<le> (if byte c = 0xED then 0x9F else 0xBF) \<and> is_cont c2"
        show ?thesis
        proof (cases ?g)
          case False
          have "DecodeRuneInString (c # s) = (if ?g then
              ((byte c mod 0x10) * 0x1000 + (byte c1 mod 0x40) * 0x40 + byte c2 mod 0x40, 3)
              else (RuneError, 1))"
            using dec3 [OF c, of s] s1 Cons by simp
          then have "DecodeRuneInString (c # s) = (RuneError, 1)"
            by (simp only: False if_False)
          then show ?thesis using ok by simp
        next
          case True
          then have r1: "(if byte c = 0xE0 then 0xA0 else 0x80) \<le> byte c1"
            "byte c1 \<le> (if byte c = 0xED then 0x9F else 0xBF)"
            and r2: "0x80 \<le> byte c2" "byte c2 \<le> 0xBF"
            by (simp_all add: is_cont_def)
          note e = enc3 [OF c r1 r2]
          let ?r = "(byte c mod 0x10) * 0x1000 + (byte c1 mod 0x40) * 0x40 + byte c2 mod 0x40"
          have d: "DecodeRuneInString (c # s) = (?r, 3)"
            using dec3 [OF c, of s] s1 Cons True by simp
          have d': "DecodeRuneInString (c # c1 # c2 # t) = (?r, 3)"
            using dec3 [OF c, of "c1 # c2 # t"] True by simp
          have en: "EncodeRune ?r = [c, c1, c2]"
            by (simp only: EncodeRune_3 [OF e(1) e(2) e(3)] e(4,5,6) char_of_byte)
          show ?thesis unfolding d using s1 Cons d' en by simp
        qed
      qed
    qed
  next
    case d
    show ?thesis
    proof (cases s)
      case Nil
      then show ?thesis using ok dec4 [OF d, of s] by simp
    next
      case s1: (Cons c1 s1)
      show ?thesis
      proof (cases s1)
        case Nil
        then show ?thesis using ok dec4 [OF d, of s] s1 by simp
      next
        case s2: (Cons c2 s2)
        show ?thesis
        proof (cases s2)
          case Nil
          then show ?thesis using ok dec4 [OF d, of s] s1 s2 by simp
        next
          case (Cons c3 s3)
          let ?g = "(if byte c = 0xF0 then 0x90 else 0x80) \<le> byte c1
             \<and> byte c1 \<le> (if byte c = 0xF4 then 0x8F else 0xBF) \<and> is_cont c2 \<and> is_cont c3"
          show ?thesis
          proof (cases ?g)
            case False
            have "DecodeRuneInString (c # s) = (if ?g then
                ((byte c mod 0x08) * 0x40000 + (byte c1 mod 0x40) * 0x1000
                  + (byte c2 mod 0x40) * 0x40 + byte c3 mod 0x40, 4)
                else (RuneError, 1))"
              using dec4 [OF d, of s] s1 s2 Cons by simp
            then have "DecodeRuneInString (c # s) = (RuneError, 1)"
              by (simp only: False if_False)
            then show ?thesis using ok by simp
          next
            case True
            then have r1: "(if byte c = 0xF0 then 0x90 else 0x80) \<le> byte c1"
              "byte c1 \<le> (if byte c = 0xF4 then 0x8F else 0xBF)"
              and r2: "0x80 \<le> byte c2" "byte c2 \<le> 0xBF"
              and r3: "0x80 \<le> byte c3" "byte c3 \<le> 0xBF"
              by (simp_all add: is_cont_def)
            note e = enc4 [OF d r1 r2 r3]
            let ?r = "(byte c mod 0x08) * 0x40000 + (byte c1 mod 0x40) * 0x1000
                + (byte c2 mod 0x40) * 0x40 + byte c3 mod 0x40"
            have dd: "DecodeRuneInString (c # s) = (?r, 4)"
              using dec4 [OF d, of s] s1 s2 Cons True by simp
            have d': "DecodeRuneInString (c # c1 # c2 # c3 # t) = (?r, 4)"
              using dec4 [OF d, of "c1 # c2 # c3 # t"] True by simp
            have en: "EncodeRune ?r = [c, c1, c2, c3]"
              by (simp only: EncodeRune_4 [OF e(1) e(2)] e(3,4,5,6) char_of_byte)
            show ?thesis unfolding dd using s1 s2 Cons d' en by simp
          qed
        qed
      qed
    qed
  next
    case e
    then show ?thesis using ok dec5 [OF e] by simp
  qed
qed

lemma coerce_utf8_bad:
  assumes "fst (DecodeRuneInString (c # s)) = RuneError \<and> snd (DecodeRuneInString (c # s)) = 1"
  shows "coerce_utf8 (c # s) = EncodeRune RuneError @ coerce_utf8 s"
proof -
  have n: "snd (DecodeRuneInString (c # s)) - 1 = 0" using assms by simp
  have p: "(fst (DecodeRuneInString (c # s)) = RuneError \<and> snd (DecodeRuneInString (c # s)) = 1) = True"
    using assms by simp
  show ?thesis by (simp only: coerce_utf8.simps p if_True n drop_0)
qed

lemma coerce_utf8_good:
  assumes "\<not> (fst (DecodeRuneInString (c # s)) = RuneError \<and> snd (DecodeRuneInString (c # s)) = 1)"
  shows "coerce_utf8 (c # s) = take (snd (DecodeRuneInString (c # s))) (c # s)
     @ coerce_utf8 (drop (snd (DecodeRuneInString (c # s)) - 1) s)"
proof -
  have p: "(fst (DecodeRuneInString (c # s)) = RuneError \<and> snd (DecodeRuneInString (c # s)) = 1) = False"
    using assms by simp
  show ?thesis by (simp only: coerce_utf8.simps p if_False)
qed

lemma ValidString_Cons:
  "ValidString (c # s) =
     (\<not> (fst (DecodeRuneInString (c # s)) = RuneError \<and> snd (DecodeRuneInString (c # s)) = 1)
      \<and> ValidString (drop (snd (DecodeRuneInString (c # s)) - 1) s))"
  by (simp only: ValidString.simps)

lemma json_string_body_ascii:
  assumes "byte c < RuneSelf"
  shows "json_string_body (c # s) = (if htmlSafe c then [c] else json_escape c) @ json_string_body s"
proof -
  have p: "(byte c < RuneSelf) = True" using assms by simp
  show ?thesis by (simp only: json_string_body.simps p if_True)
qed

lemma json_string_body_bad:
  assumes "\<not> byte c < RuneSelf"
    and "fst (DecodeRuneInString (c # s)) = RuneError \<and> snd (DecodeRuneInString (c # s)) = 1"
  shows "json_string_body (c # s) = CHR 0x5C # ''ufffd'' @ json_string_body s"
proof -
  have p: "(byte c < RuneSelf) = False" using assms(1) by simp
  have q: "(fst (DecodeRuneInString (c # s)) = RuneError \<and> snd (DecodeRuneInString (c # s)) = 1) = True"
    using assms(2) by simp
  show ?thesis by (simp only: json_string_body.simps p q if_False if_True Let_def append_Cons)
qed

lemma json_string_body_sep:
  assumes "\<not> byte c < RuneSelf"
    and "\<not> (fst (DecodeRuneInString (c # s)) = RuneError \<and> snd (DecodeRuneInString (c # s)) = 1)"
    and "fst (DecodeRuneInString (c # s)) = 0x2028 \<or> fst (DecodeRuneInString (c # s)) = 0x2029"
  shows "json_string_body (c # s)
     = CHR 0x5C # CHR ''u'' # CHR ''2'' # CHR ''0'' # CHR ''2''
       # hex (fst (DecodeRuneInString (c # s)) mod 16)
       # json_string_body (drop (snd (DecodeRuneInString (c # s)) - 1) s)"
proof -
  have p: "(byte c < RuneSelf) = False" using assms(1) by simp
  have q: "(fst (DecodeRuneInString (c # s)) = RuneError \<and> snd (DecodeRuneInString (c # s)) = 1) = False"
    using assms(2) by simp
  have r: "(fst (DecodeRuneInString (c # s)) = 0x2028 \<or> fst (DecodeRuneInString (c # s)) = 0x2029) = True"
    using assms(3) by simp
  show ?thesis
    by (simp only: json_string_body.simps p q r if_False if_True Let_def append_Cons append_Nil)
qed

lemma json_string_body_copy:
  assumes "\<not> byte c < RuneSelf"
    and "\<not> (fst (DecodeRuneInString (c # s)) = RuneError \<and> snd (DecodeRuneInString (c # s)) = 1)"
    and "\<not> (fst (DecodeRuneInString (c # s)) = 0x2028 \<or> fst (DecodeRuneInString (c # s)) = 0x2029)"
  shows "json_string_body (c # s)
     = take (snd (DecodeRuneInString (c # s))) (c # s)
       @ json_string_body (drop (snd (DecodeRuneInString (c # s)) - 1) s)"
proof -
  have p: "(byte c < RuneSelf) = False" using assms(1) by simp
  have q: "(fst (DecodeRuneInString (c # s)) = RuneError \<and> snd (DecodeRuneInString (c # s)) = 1) = False"
    using assms(2) by simp
  have r: "(fst (DecodeRuneInString (c # s)) = 0x2028 \<or> fst (DecodeRuneInString (c # s)) = 0x2029) = False"
    using assms(3) by simp
  show ?thesis by (simp only: json_string_body.simps p q r if_False Let_def)
qed

lemma decode_size_pos: "1 \<le> snd (DecodeRuneInString (c # s))"
proof (cases "byte c < RuneSelf")
  case True
  then show ?thesis by (simp add: DecodeRuneInString_ascii)
next
  case False
  then have hi: "RuneSelf \<le> byte c" by simp
  show ?thesis
  proof (cases "fst (DecodeRuneInString (c # s)) = RuneError \<and> snd (DecodeRuneInString (c # s)) = 1")
    case True
    then show ?thesis by simp
  next
    case False
    then show ?thesis using decode_multibyte [OF hi False, of "[]"] by linarith
  qed
qed

lemma take_drop_rune: "1 \<le> n \<Longrightarrow> take n (c # s) @ drop (n - 1) s = c # s"
  by (cases n) simp_all

lemma coerce_utf8_valid: "ValidString s \<Longrightarrow> coerce_utf8 s = s"
proof (induction "length s" arbitrary: s rule: less_induct)
  case less
  show ?case
  proof (cases s)
    case Nil
    then show ?thesis by simp
  next
    case (Cons c s1)
    have v: "\<not> (fst (DecodeRuneInString (c # s1)) = RuneError \<and> snd (DecodeRuneInString (c # s1)) = 1)"
      and r: "ValidString (drop (snd (DecodeRuneInString (c # s1)) - 1) s1)"
      using less.prems unfolding Cons ValidString_Cons by blast+
    have "length (drop (snd (DecodeRuneInString (c # s1)) - 1) s1) < length s"
      unfolding Cons by simp
    then have ih: "coerce_utf8 (drop (snd (DecodeRuneInString (c # s1)) - 1) s1)
        = drop (snd (DecodeRuneInString (c # s1)) - 1) s1"
      using less.hyps r by blast
    show ?thesis
      unfolding Cons coerce_utf8_good [OF v] ih by (rule take_drop_rune [OF decode_size_pos])
  qed
qed

lemma emit_Some: "emit x (Some (t, rest)) = Some (x @ t, rest)"
  by (simp add: emit_def)

lemma hexval_hex: "n < 16 \<Longrightarrow> hexval (hex n) = Some n"
proof -
  have "list_all (\<lambda>n. hexval (hex n) = Some n) [0..<16]" by code_simp
  then have "\<forall>n \<in> set [0..<16]. hexval (hex n) = Some n" by (simp only: list_all_iff)
  moreover assume "n < 16"
  ultimately show ?thesis by simp
qed

lemma hexval_0: "hexval CHR ''0'' = Some 0"
  by code_simp

lemma hex4_byte:
  assumes "b < 256"
  shows "hex4 CHR ''0'' CHR ''0'' (hex (b div 16)) (hex (b mod 16)) = Some b"
proof -
  have 1: "b div 16 < 16" using assms by simp
  have 2: "b mod 16 < 16" by simp
  show ?thesis
    unfolding hex4_def hexval_0 hexval_hex [OF 1] hexval_hex [OF 2] by simp
qed

lemma unquote_u_plain:
  assumes "hex4 h1 h2 h3 h4 = Some r" and "\<not> IsSurrogate r"
  shows "unquote (CHR 0x5C # CHR ''u'' # h1 # h2 # h3 # h4 # x) = emit (EncodeRune r) (unquote x)"
  using assms by (simp add: unquote.simps)

lemma unquote_simple:
  assumes "simple_escape e = Some x" and "e \<noteq> CHR ''u''"
  shows "unquote (CHR 0x5C # e # s) = emit [x] (unquote s)"
  using assms by (simp add: unquote.simps)

lemma unquote_safe:
  assumes "htmlSafe c"
  shows "unquote (c # s) = emit [c] (unquote s)"
proof -
  have b: "0x20 \<le> byte c" "byte c < 0x80" "byte c \<noteq> 0x22" "byte c \<noteq> 0x5C"
    using assms by (simp_all add: htmlSafe_def)
  have "c \<noteq> CHR 0x22" "c \<noteq> CHR 0x5C" using b by (auto simp: byte_def)
  then show ?thesis using b by (simp add: unquote.simps RuneSelf_def)
qed

lemma unquote_escape:
  assumes "byte c < RuneSelf" and "\<not> htmlSafe c"
  shows "unquote (json_escape c @ s) = emit [c] (unquote s)"
proof -
  have lt: "byte c < 256" by (rule byte_less_256)
  consider (q) "c = CHR 0x5C \<or> c = CHR 0x22"
    | (b) "c = CHR 0x08" | (f) "c = CHR 0x0C" | (n) "c = CHR 0x0A" | (r) "c = CHR 0x0D"
    | (t) "c = CHR 0x09"
    | (u) "c \<noteq> CHR 0x5C" "c \<noteq> CHR 0x22" "c \<noteq> CHR 0x08" "c \<noteq> CHR 0x0C" "c \<noteq> CHR 0x0A"
          "c \<noteq> CHR 0x0D" "c \<noteq> CHR 0x09"
    by blast
  then show ?thesis
  proof cases
    case q
    then have j: "json_escape c = [CHR 0x5C, c]" by (simp add: json_escape_def)
    have "simple_escape c = Some c" and "c \<noteq> CHR ''u''" using q by (auto simp: simple_escape_def)
    then show ?thesis unfolding j using unquote_simple by simp
  next
    case b
    show ?thesis unfolding b by (simp add: json_escape_def unquote.simps simple_escape_def)
  next
    case f
    show ?thesis unfolding f by (simp add: json_escape_def unquote.simps simple_escape_def)
  next
    case n
    show ?thesis unfolding n by (simp add: json_escape_def unquote.simps simple_escape_def)
  next
    case r
    show ?thesis unfolding r by (simp add: json_escape_def unquote.simps simple_escape_def)
  next
    case t
    show ?thesis unfolding t by (simp add: json_escape_def unquote.simps simple_escape_def)
  next
    case u
    then have j: "json_escape c
        = CHR 0x5C # CHR ''u'' # CHR ''0'' # CHR ''0'' # hex (byte c div 16) # hex (byte c mod 16) # []"
      by (simp add: json_escape_def)
    have s: "\<not> IsSurrogate (byte c)" using assms(1) by (simp add: IsSurrogate_def RuneSelf_def)
    show ?thesis
      unfolding j using unquote_u_plain [OF hex4_byte [OF lt] s] EncodeRune_ascii [OF assms(1)]
      by simp
  qed
qed

lemma coerce_utf8_ascii:
  assumes "byte c < RuneSelf"
  shows "coerce_utf8 (c # s) = c # coerce_utf8 s"
proof -
  have "byte c \<noteq> RuneError" using assms by (simp add: RuneError_def RuneSelf_def)
  then have v: "\<not> (fst (DecodeRuneInString (c # s)) = RuneError \<and> snd (DecodeRuneInString (c # s)) = 1)"
    by (simp add: DecodeRuneInString_ascii [OF assms])
  show ?thesis
    unfolding coerce_utf8_good [OF v] by (simp add: DecodeRuneInString_ascii [OF assms])
qed

lemma hex4_fffd: "hex4 CHR ''f'' CHR ''f'' CHR ''f'' CHR ''d'' = Some RuneError"
  by (simp add: hex4_def hexval_def byte_def RuneError_def)

lemma hex4_2028: "hex4 CHR ''2'' CHR ''0'' CHR ''2'' (hex (0x2028 mod 16)) = Some 0x2028"
  by (simp add: hex4_def hexval_def byte_def hex_def)

lemma hex4_2029: "hex4 CHR ''2'' CHR ''0'' CHR ''2'' (hex (0x2029 mod 16)) = Some 0x2029"
  by (simp add: hex4_def hexval_def byte_def hex_def)

lemma not_surrogate: "\<not> IsSurrogate RuneError" "\<not> IsSurrogate 0x2028" "\<not> IsSurrogate 0x2029"
  by (simp_all add: IsSurrogate_def RuneError_def)

lemma unquote_high:
  assumes "RuneSelf \<le> byte c"
  shows "unquote (c # s)
     = emit (EncodeRune (fst (DecodeRuneInString (c # s))))
            (unquote (drop (snd (DecodeRuneInString (c # s)) - 1) s))"
proof -
  have b: "\<not> byte c < 0x20" "\<not> byte c < RuneSelf" using assms by (simp_all add: RuneSelf_def)
  have "c \<noteq> CHR 0x22" "c \<noteq> CHR 0x5C" using assms by (auto simp: byte_def RuneSelf_def)
  then show ?thesis using b by (simp add: unquote.simps)
qed

lemma unquote_multibyte:
  assumes hi: "RuneSelf \<le> byte c"
    and ok: "\<not> (fst (DecodeRuneInString (c # s)) = RuneError \<and> snd (DecodeRuneInString (c # s)) = 1)"
  shows "unquote (take (snd (DecodeRuneInString (c # s))) (c # s) @ x)
     = emit (take (snd (DecodeRuneInString (c # s))) (c # s)) (unquote x)"
proof -
  note m = decode_multibyte [OF hi ok, of x]
  have n2: "2 \<le> snd (DecodeRuneInString (c # s))"
    and nl: "snd (DecodeRuneInString (c # s)) \<le> Suc (length s)" using m by blast+
  have e: "EncodeRune (fst (DecodeRuneInString (c # s))) = take (snd (DecodeRuneInString (c # s))) (c # s)"
    using m by blast
  obtain k where k: "snd (DecodeRuneInString (c # s)) = Suc k"
    using n2 by (cases "snd (DecodeRuneInString (c # s))") simp_all
  have t: "take (Suc k) (c # s) @ x = c # (take k s @ x)" by simp
  have d: "DecodeRuneInString (c # (take k s @ x)) = DecodeRuneInString (c # s)"
    using m unfolding k t by blast
  have kl: "k \<le> length s" using nl k by simp
  have dr: "drop (Suc k - 1) (take k s @ x) = x" using kl by simp
  have "unquote (c # (take k s @ x))
      = emit (EncodeRune (fst (DecodeRuneInString (c # s)))) (unquote (drop (Suc k - 1) (take k s @ x)))"
    by (simp only: unquote_high [OF hi] d k)
  also have "\<dots> = emit (take (Suc k) (c # s)) (unquote x)"
    by (simp only: dr e k)
  finally show ?thesis unfolding k t .
qed

lemma unquote_body:
  "unquote (json_string_body s @ CHR 0x22 # rest) = Some (coerce_utf8 s, rest)"
proof (induction "length s" arbitrary: s rule: less_induct)
  case less
  show ?case
  proof (cases s)
    case Nil
    then show ?thesis by (simp add: unquote.simps)
  next
    case (Cons c s1)
    have ih1: "unquote (json_string_body s1 @ CHR 0x22 # rest) = Some (coerce_utf8 s1, rest)"
      using less Cons by simp
    have ihn: "unquote (json_string_body (drop (snd (DecodeRuneInString (c # s1)) - 1) s1) @ CHR 0x22 # rest)
        = Some (coerce_utf8 (drop (snd (DecodeRuneInString (c # s1)) - 1) s1), rest)"
      using less Cons by simp
    show ?thesis
    proof (cases "byte c < RuneSelf")
      case True
      have "unquote ((if htmlSafe c then [c] else json_escape c) @ json_string_body s1 @ CHR 0x22 # rest)
          = emit [c] (unquote (json_string_body s1 @ CHR 0x22 # rest))"
        using unquote_safe unquote_escape [OF True] by (cases "htmlSafe c") simp_all
      then show ?thesis
        unfolding Cons json_string_body_ascii [OF True] coerce_utf8_ascii [OF True] append_assoc ih1
        by (simp add: emit_Some)
    next
      case False
      then have hi: "RuneSelf \<le> byte c" by simp
      show ?thesis
      proof (cases "fst (DecodeRuneInString (c # s1)) = RuneError \<and> snd (DecodeRuneInString (c # s1)) = 1")
        case True
        have "unquote (CHR 0x5C # ''ufffd'' @ json_string_body s1 @ CHR 0x22 # rest)
            = emit (EncodeRune RuneError) (unquote (json_string_body s1 @ CHR 0x22 # rest))"
          using unquote_u_plain [OF hex4_fffd not_surrogate(1)] by simp
        then show ?thesis
          unfolding Cons json_string_body_bad [OF False True] coerce_utf8_bad [OF True] ih1
          by (simp add: emit_Some)
      next
        case ok: False
        have e: "EncodeRune (fst (DecodeRuneInString (c # s1))) = take (snd (DecodeRuneInString (c # s1))) (c # s1)"
          using decode_multibyte [OF hi ok, of "[]"] by blast
        show ?thesis
        proof (cases "fst (DecodeRuneInString (c # s1)) = 0x2028 \<or> fst (DecodeRuneInString (c # s1)) = 0x2029")
          case True
          have h: "hex4 CHR ''2'' CHR ''0'' CHR ''2'' (hex (fst (DecodeRuneInString (c # s1)) mod 16))
              = Some (fst (DecodeRuneInString (c # s1)))"
            using True hex4_2028 hex4_2029 by auto
          have ns: "\<not> IsSurrogate (fst (DecodeRuneInString (c # s1)))" using True not_surrogate by auto
          show ?thesis
            unfolding Cons json_string_body_sep [OF False ok True] coerce_utf8_good [OF ok]
              append_Cons unquote_u_plain [OF h ns] ihn e
            by (simp add: emit_Some)
        next
          case sep: False
          show ?thesis
            unfolding Cons json_string_body_copy [OF False ok sep] coerce_utf8_good [OF ok]
              append_assoc unquote_multibyte [OF hi ok] ihn
            by (simp add: emit_Some)
        qed
      qed
    qed
  qed
qed

lemma unquote_plain:
  "\<forall>c \<in> set x. htmlSafe c \<Longrightarrow> unquote (x @ CHR 0x22 # rest) = Some (x, rest)"
proof (induction x)
  case Nil
  show ?case by (simp add: unquote.simps)
next
  case (Cons c x)
  then have c: "htmlSafe c" and ih: "unquote (x @ CHR 0x22 # rest) = Some (x, rest)" by simp_all
  show ?case unfolding append_Cons unquote_safe [OF c] ih by (simp add: emit_Some)
qed

lemma byte_char_of: "n < 256 \<Longrightarrow> byte (char_of n) = n"
  by (simp add: byte_def)

lemma char_is: "(c = d) = (byte c = byte d)"
  by (simp only: byte_eq_iff)

lemma b64_byte:
  "byte (b64_char n) =
     (if n < 26 then 0x41 + n else if n < 52 then 0x61 + (n - 26)
      else if n < 62 then 0x30 + (n - 52) else if n = 62 then 0x2B else 0x2F)"
  by (simp add: b64_char_def byte_def)

lemma b64_val_byte:
  "b64_val c =
     (if 0x41 \<le> byte c \<and> byte c \<le> 0x5A then Some (byte c - 0x41)
      else if 0x61 \<le> byte c \<and> byte c \<le> 0x7A then Some (byte c - 0x61 + 26)
      else if 0x30 \<le> byte c \<and> byte c \<le> 0x39 then Some (byte c - 0x30 + 52)
      else if byte c = 0x2B then Some 62
      else if byte c = 0x2F then Some 63
      else None)"
proof -
  have 1: "(c = CHR ''+'') = (byte c = 0x2B)" by (simp add: char_is [of c]) (simp add: byte_def)
  have 2: "(c = CHR ''/'') = (byte c = 0x2F)" by (simp add: char_is [of c]) (simp add: byte_def)
  show ?thesis unfolding b64_val_def 1 2 by (rule refl)
qed

lemma b64_val_char: "n < 64 \<Longrightarrow> b64_val (b64_char n) = Some n"
  unfolding b64_val_byte b64_byte by (simp split: if_splits) arith

lemma b64_not_pad: "b64_char n \<noteq> CHR ''=''"
proof -
  have "byte (b64_char n) \<noteq> 0x3D" unfolding b64_byte by (simp split: if_splits) arith
  moreover have "byte CHR ''='' = 0x3D" by (simp add: byte_def)
  ultimately show ?thesis by (metis)
qed

lemma b64_safe: "htmlSafe (b64_char n)"
  unfolding htmlSafe_def b64_byte by (simp split: if_splits) arith

lemma pad_safe: "htmlSafe CHR ''=''"
  by (simp add: htmlSafe_def byte_def)

lemma base64_encode_safe: "\<forall>c \<in> set (base64_encode bs). htmlSafe c"
  by (induction bs rule: base64_encode.induct) (simp_all add: b64_safe pad_safe)

lemma htmlSafe_not_newline: "htmlSafe c \<Longrightarrow> c \<noteq> CHR 0x0D \<and> c \<noteq> CHR 0x0A"
  by (auto simp: htmlSafe_def byte_def)

lemma base64_encode_no_newline:
  "filter (\<lambda>c. c \<noteq> CHR 0x0D \<and> c \<noteq> CHR 0x0A) (base64_encode bs) = base64_encode bs"
proof -
  have "\<forall>c \<in> set (base64_encode bs). c \<noteq> CHR 0x0D \<and> c \<noteq> CHR 0x0A"
    using base64_encode_safe htmlSafe_not_newline by blast
  then show ?thesis by (simp only: filter_id_conv)
qed

lemma b64_split:
  fixes a b c :: nat
  assumes "b < 256" and "c < 256"
  shows "(a div 4) * 4 + ((a mod 4) * 16 + b div 16) div 16 = a"
    and "(((a mod 4) * 16 + b div 16) mod 16) * 16 + ((b mod 16) * 4 + c div 64) div 4 = b"
    and "(((b mod 16) * 4 + c div 64) mod 4) * 64 + c mod 64 = c"
proof -
  have b16: "b div 16 < 16" using assms(1) by (intro less_mult_imp_div_less) simp
  have c64: "c div 64 < 4" using assms(2) by (intro less_mult_imp_div_less) simp
  have 1: "((a mod 4) * 16 + b div 16) div 16 = a mod 4" by (rule div_mod_digit(1) [OF b16])
  have 2: "((a mod 4) * 16 + b div 16) mod 16 = b div 16" by (rule div_mod_digit(2) [OF b16])
  have 3: "((b mod 16) * 4 + c div 64) div 4 = b mod 16" by (rule div_mod_digit(1) [OF c64])
  have 4: "((b mod 16) * 4 + c div 64) mod 4 = c div 64" by (rule div_mod_digit(2) [OF c64])
  show "(a div 4) * 4 + ((a mod 4) * 16 + b div 16) div 16 = a" unfolding 1 by simp
  show "(((a mod 4) * 16 + b div 16) mod 16) * 16 + ((b mod 16) * 4 + c div 64) div 4 = b"
    unfolding 2 3 by simp
  show "(((b mod 16) * 4 + c div 64) mod 4) * 64 + c mod 64 = c" unfolding 4 by simp
qed

lemma b64_bounds:
  fixes a b c :: nat
  assumes "a < 256" and "b < 256" and "c < 256"
  shows "a div 4 < 64" and "(a mod 4) * 16 + b div 16 < 64" and "(b mod 16) * 4 + c div 64 < 64"
    and "c mod 64 < 64"
proof -
  have b16: "b div 16 < 16" using assms(2) by (intro less_mult_imp_div_less) simp
  have c64: "c div 64 < 4" using assms(3) by (intro less_mult_imp_div_less) simp
  have a4: "a mod 4 < 4" and b4: "b mod 16 < 16" by simp_all
  show "a div 4 < 64" using assms(1) by (intro less_mult_imp_div_less) simp
  show "(a mod 4) * 16 + b div 16 < 64" using a4 b16 by linarith
  show "(b mod 16) * 4 + c div 64 < 64" using b4 c64 by linarith
  show "c mod 64 < 64" by simp
qed

lemma base64_groups_4:
  assumes "x < 64" "y < 64" "z < 64" "w < 64"
  shows "base64_groups (b64_char x # b64_char y # b64_char z # b64_char w # rest) =
     (case base64_groups rest of
        None \<Rightarrow> None
      | Some bs \<Rightarrow> Some (char_of (x * 4 + y div 16) # char_of ((y mod 16) * 16 + z div 4)
                          # char_of ((z mod 4) * 64 + w) # bs))"
  using assms by (simp add: b64_val_char b64_not_pad)

lemma base64_groups_3:
  assumes "x < 64" "y < 64" "z < 64"
  shows "base64_groups [b64_char x, b64_char y, b64_char z, CHR ''='']
     = Some [char_of (x * 4 + y div 16), char_of ((y mod 16) * 16 + z div 4)]"
  using assms by (simp add: b64_val_char b64_not_pad)

lemma base64_groups_2:
  assumes "x < 64" "y < 64"
  shows "base64_groups [b64_char x, b64_char y, CHR ''='', CHR ''='']
     = Some [char_of (x * 4 + y div 16)]"
  using assms by (simp add: b64_val_char)

lemma base64_groups_encode: "base64_groups (base64_encode bs) = Some bs"
proof (induction bs rule: base64_encode.induct)
  case 1
  show ?case by simp
next
  case (2 a)
  note l = byte_less_256 [of a]
  have z: "(0::nat) < 256" by simp
  note bd = b64_bounds [OF l z z]
  note sp = b64_split [OF z z]
  have "base64_groups [b64_char (byte a div 4), b64_char ((byte a mod 4) * 16 + 0 div 16),
        CHR ''='', CHR ''='']
      = Some [char_of ((byte a div 4) * 4 + ((byte a mod 4) * 16 + 0 div 16) div 16)]"
    by (rule base64_groups_2 [OF bd(1) bd(2)])
  then show ?case unfolding sp(1) char_of_byte by simp
next
  case (3 a b)
  note la = byte_less_256 [of a] and lb = byte_less_256 [of b]
  have z: "(0::nat) < 256" by simp
  note bd = b64_bounds [OF la lb z]
  note sp = b64_split [OF lb z]
  have "base64_groups [b64_char (byte a div 4), b64_char ((byte a mod 4) * 16 + byte b div 16),
        b64_char ((byte b mod 16) * 4 + 0 div 64), CHR ''='']
      = Some [char_of ((byte a div 4) * 4 + ((byte a mod 4) * 16 + byte b div 16) div 16),
              char_of ((((byte a mod 4) * 16 + byte b div 16) mod 16) * 16
                       + ((byte b mod 16) * 4 + 0 div 64) div 4)]"
    by (rule base64_groups_3 [OF bd(1) bd(2) bd(3)])
  then show ?case unfolding sp(1) sp(2) char_of_byte by simp
next
  case (4 a b c s)
  note la = byte_less_256 [of a] and lb = byte_less_256 [of b] and lc = byte_less_256 [of c]
  note bd = b64_bounds [OF la lb lc]
  note sp = b64_split [OF lb lc]
  have "base64_groups (base64_encode (a # b # c # s))
      = base64_groups (b64_char (byte a div 4) # b64_char ((byte a mod 4) * 16 + byte b div 16)
          # b64_char ((byte b mod 16) * 4 + byte c div 64) # b64_char (byte c mod 64)
          # base64_encode s)"
    by simp
  also have "\<dots> = Some (a # b # c # s)"
    unfolding base64_groups_4 [OF bd] "4.IH" sp char_of_byte by simp
  finally show ?case .
qed

lemma base64_decode_encode: "base64_decode (base64_encode bs) = Some bs"
  unfolding base64_decode_def base64_encode_no_newline by (rule base64_groups_encode)

lemma is_digit_char: "d < (10::nat) \<Longrightarrow> is_digit (char_of (0x30 + d))"
  by (simp add: is_digit_def byte_digit)

lemma digits_all_digit: "list_all is_digit (digits n)"
proof (induction n rule: digits.induct)
  case (1 n)
  show ?case
  proof (cases "n < 10")
    case True
    then show ?thesis by (subst digits.simps) (simp add: is_digit_char)
  next
    case False
    have m: "n mod 10 < 10" by simp
    show ?thesis using False 1 by (subst digits.simps) (simp add: is_digit_char [OF m])
  qed
qed

lemma digits_small: "n < 10 \<Longrightarrow> digits n = [char_of (0x30 + n)]"
  by (subst digits.simps) simp

lemma digits_big: "\<not> n < 10 \<Longrightarrow> digits n = digits (n div 10) @ [char_of (0x30 + n mod 10)]"
  by (subst digits.simps) simp

lemma digits_zero: "digits 0 = ''0''"
  by (simp add: digits_small char_is byte_def)

lemma digits_lead: "hd (digits n) = CHR ''0'' \<Longrightarrow> digits n = ''0''"
proof (induction n rule: digits.induct)
  case (1 n)
  show ?case
  proof (cases "n < 10")
    case True
    then show ?thesis using "1.prems" by (simp add: digits_small)
  next
    case False
    have "hd (digits n) = hd (digits (n div 10))"
      unfolding digits_big [OF False] using digits_nonempty by simp
    then have "digits (n div 10) = ''0''" using 1 False by simp
    then have "digits (n div 10) = digits 0" by (simp only: digits_zero)
    then have "n div 10 = 0" by (rule digits_inj)
    then show ?thesis using False by simp
  qed
qed

lemma is_digit_not:
  "is_digit c \<Longrightarrow> c \<noteq> CHR 0x22 \<and> c \<noteq> CHR ''{'' \<and> c \<noteq> CHR ''['' \<and> c \<noteq> CHR ''t''
     \<and> c \<noteq> CHR ''f'' \<and> c \<noteq> CHR ''n'' \<and> c \<noteq> CHR ''-''"
  by (auto simp: is_digit_def byte_def)

lemma takeWhile_digits:
  assumes "list_all is_digit ds" and "\<not> is_digit c"
  shows "takeWhile is_digit (ds @ c # rest) = ds" and "dropWhile is_digit (ds @ c # rest) = c # rest"
  using assms by (induction ds) simp_all

lemma lex_int_digits:
  assumes "\<not> is_digit c"
  shows "lex_int (digits n @ c # rest) = Some (digits n, c # rest)"
proof -
  obtain d ds where e: "digits n = d # ds" using digits_nonempty [of n] by (cases "digits n") simp_all
  have a: "is_digit d" "list_all is_digit ds" using digits_all_digit [of n] unfolding e by simp_all
  show ?thesis
  proof (cases "d = CHR ''0''")
    case True
    then have "digits n = ''0''" using digits_lead [of n] e by simp
    then show ?thesis by (simp add: lex_int_def)
  next
    case False
    then show ?thesis
      unfolding e using a(1) takeWhile_digits [OF a(2) assms] by (simp add: lex_int_def)
  qed
qed

lemma comma_facts:
  "\<not> is_digit CHR '',''" "\<not> is_ws CHR '',''"
  by (simp_all add: is_digit_def is_ws_def byte_def)

lemma lex_tail_comma:
  "lex_frac (CHR '','' # rest) = Some ([], CHR '','' # rest)"
  "lex_exp (CHR '','' # rest) = Some ([], CHR '','' # rest)"
  by (simp_all add: lex_frac_def lex_exp_def)

lemma hd_digits: "is_digit (hd (digits n))"
  using digits_all_digit [of n] digits_nonempty [of n] by (cases "digits n") simp_all

lemma lex_number_FormatInt:
  "lex_number (FormatInt i @ CHR '','' # rest) = Some (FormatInt i, CHR '','' # rest)"
proof (cases "i < 0")
  case True
  then have f: "FormatInt i = CHR ''-'' # digits (nat (- i))" by (simp add: FormatInt_def)
  show ?thesis
    unfolding f lex_number_def
    by (simp add: lex_int_digits [OF comma_facts(1)] lex_tail_comma)
next
  case False
  then have f: "FormatInt i = digits (nat i)" by (simp add: FormatInt_def)
  obtain d ds where e: "digits (nat i) = d # ds"
    using digits_nonempty [of "nat i"] by (cases "digits (nat i)") simp_all
  have "is_digit d" using hd_digits [of "nat i"] e by simp
  then have m: "d \<noteq> CHR ''-''" using is_digit_not by blast
  have l: "lex_int (d # ds @ CHR '','' # rest) = Some (d # ds, CHR '','' # rest)"
    using lex_int_digits [OF comma_facts(1), of "nat i" rest] unfolding e by simp
  show ?thesis
    unfolding f e lex_number_def using m l by (simp add: lex_tail_comma)
qed

lemma FormatInt_first:
  "\<exists>c s. FormatInt i = c # s \<and> c \<noteq> CHR 0x22 \<and> c \<noteq> CHR ''{'' \<and> c \<noteq> CHR ''[''
     \<and> c \<noteq> CHR ''t'' \<and> c \<noteq> CHR ''f'' \<and> c \<noteq> CHR ''n'' \<and> \<not> is_ws c"
proof (cases "i < 0")
  case True
  then have f: "FormatInt i = CHR ''-'' # digits (nat (- i))" by (simp add: FormatInt_def)
  show ?thesis unfolding f by (simp add: is_ws_def)
next
  case False
  then have f: "FormatInt i = digits (nat i)" by (simp add: FormatInt_def)
  obtain d ds where e: "digits (nat i) = d # ds"
    using digits_nonempty [of "nat i"] by (cases "digits (nat i)") simp_all
  have d: "is_digit d" using hd_digits [of "nat i"] e by simp
  then have "\<not> is_ws d" by (auto simp: is_digit_def is_ws_def byte_def)
  then show ?thesis unfolding f e using is_digit_not [OF d] by simp
qed

lemma parse_value_FormatInt:
  "parse_value (Suc n) (FormatInt i @ CHR '','' # rest) = Some (JNumber (FormatInt i), CHR '','' # rest)"
proof -
  obtain c s where f: "FormatInt i = c # s" and c: "c \<noteq> CHR 0x22" "c \<noteq> CHR ''{''" "c \<noteq> CHR ''[''"
    "c \<noteq> CHR ''t''" "c \<noteq> CHR ''f''" "c \<noteq> CHR ''n''"
    using FormatInt_first [of i] by blast
  have l: "lex_number (c # s @ CHR '','' # rest) = Some (c # s, CHR '','' # rest)"
    using lex_number_FormatInt [of i rest] unfolding f by simp
  show ?thesis unfolding f using c l by simp
qed

lemma parse_int64_FormatInt:
  assumes "is_int64 i"
  shows "parse_int64 (FormatInt i) = Some i"
proof (cases "i < 0")
  case True
  then have f: "FormatInt i = CHR ''-'' # digits (nat (- i))" by (simp add: FormatInt_def)
  have v: "int (foldl (\<lambda>a c. 10 * a + (byte c - 0x30)) 0 (digits (nat (- i)))) = - i"
    unfolding digits_value using True by simp
  show ?thesis
    unfolding f parse_int64_def Let_def
    using assms v digits_nonempty [of "nat (- i)"] digits_all_digit [of "nat (- i)"]
    by (simp add: is_int64_def)
next
  case False
  then have f: "FormatInt i = digits (nat i)" by (simp add: FormatInt_def)
  obtain d ds where e: "digits (nat i) = d # ds"
    using digits_nonempty [of "nat i"] by (cases "digits (nat i)") simp_all
  have "is_digit d" using hd_digits [of "nat i"] e by simp
  then have m: "d \<noteq> CHR ''-''" using is_digit_not by blast
  have v: "int (foldl (\<lambda>a c. 10 * a + (byte c - 0x30)) 0 (digits (nat i))) = i"
    unfolding digits_value using False by simp
  have n: "(case digits (nat i) of [] \<Rightarrow> False | c # r \<Rightarrow> c = CHR ''-'') = False"
    unfolding e using m by simp
  show ?thesis
    unfolding f parse_int64_def Let_def n
    using assms v digits_nonempty [of "nat i"] digits_all_digit [of "nat i"]
    by (simp add: is_int64_def)
qed

lemma coerce_utf8_all_ascii: "\<forall>c \<in> set s. byte c < RuneSelf \<Longrightarrow> coerce_utf8 s = s"
  by (induction s) (simp_all add: coerce_utf8_ascii del: coerce_utf8.simps(2))

lemma coerce_utf8_keys:
  "coerce_utf8 ''room'' = ''room''" "coerce_utf8 ''username'' = ''username''"
  "coerce_utf8 ''ts'' = ''ts''" "coerce_utf8 ''payload'' = ''payload''"
  by (rule coerce_utf8_all_ascii, simp add: byte_def RuneSelf_def)+

lemma skip_ws_nonws: "\<not> is_ws c \<Longrightarrow> skip_ws (c # s) = c # s"
  by (simp add: skip_ws_def)

lemma skip_ws_json_string: "skip_ws (json_string k @ r) = json_string k @ r"
  by (simp add: json_string_def skip_ws_def is_ws_def)

lemma skip_ws_FormatInt: "skip_ws (FormatInt i @ r) = FormatInt i @ r"
proof -
  obtain c s where f: "FormatInt i = c # s" and w: "\<not> is_ws c" using FormatInt_first [of i] by blast
  show ?thesis unfolding f using skip_ws_nonws [OF w] by simp
qed

lemma skip_ws_json_bytes: "skip_ws (json_bytes p @ r) = json_bytes p @ r"
  by (cases p) (simp_all add: json_bytes_def skip_ws_def is_ws_def)

lemma parse_value_string:
  "parse_value (Suc n) (json_string s @ rest) = Some (JString (coerce_utf8 s), rest)"
  by (simp add: json_string_def unquote_body)

lemma parse_value_bytes:
  "parse_value (Suc n) (json_bytes p @ CHR ''}'' # rest)
     = Some ((case p of None \<Rightarrow> JNull | Some bs \<Rightarrow> JString (base64_encode bs)), CHR ''}'' # rest)"
proof (cases p)
  case None
  then show ?thesis by (simp add: json_bytes_def)
next
  case (Some bs)
  have "unquote (base64_encode bs @ CHR 0x22 # CHR ''}'' # rest)
      = Some (base64_encode bs, CHR ''}'' # rest)"
    by (rule unquote_plain [OF base64_encode_safe])
  then show ?thesis using Some by (simp add: json_bytes_def)
qed

lemma parse_membs_more:
  assumes "skip_ws vt = vt"
    and "parse_value n vt = Some (v, CHR '','' # json_string k2 @ r2)"
  shows "parse_membs (Suc n) (json_string k @ CHR '':'' # vt) =
     (case parse_membs n (json_string k2 @ r2) of
        None \<Rightarrow> None
      | Some (ms, rest2) \<Rightarrow> Some ((coerce_utf8 k, v) # ms, rest2))"
proof -
  have u: "unquote (json_string_body k @ CHR 0x22 # CHR '':'' # vt) = Some (coerce_utf8 k, CHR '':'' # vt)"
    by (rule unquote_body)
  have c: "skip_ws (CHR '':'' # vt) = CHR '':'' # vt" "skip_ws (CHR '','' # json_string k2 @ r2) = CHR '','' # json_string k2 @ r2"
    by (simp_all add: skip_ws_def is_ws_def)
  have "parse_membs (Suc n) (CHR 0x22 # json_string_body k @ CHR 0x22 # CHR '':'' # vt) =
     (case parse_membs n (json_string k2 @ r2) of
        None \<Rightarrow> None
      | Some (ms, rest2) \<Rightarrow> Some ((coerce_utf8 k, v) # ms, rest2))"
    by (simp add: u c assms skip_ws_json_string split: option.splits)
  then show ?thesis by (simp add: json_string_def)
qed

lemma parse_membs_last:
  assumes "skip_ws vt = vt"
    and "parse_value n vt = Some (v, CHR ''}'' # rest)"
  shows "parse_membs (Suc n) (json_string k @ CHR '':'' # vt) = Some ([(coerce_utf8 k, v)], rest)"
proof -
  have u: "unquote (json_string_body k @ CHR 0x22 # CHR '':'' # vt) = Some (coerce_utf8 k, CHR '':'' # vt)"
    by (rule unquote_body)
  have c: "skip_ws (CHR '':'' # vt) = CHR '':'' # vt" "skip_ws (CHR ''}'' # rest) = CHR ''}'' # rest"
    by (simp_all add: skip_ws_def is_ws_def)
  have "parse_membs (Suc n) (CHR 0x22 # json_string_body k @ CHR 0x22 # CHR '':'' # vt)
      = Some ([(coerce_utf8 k, v)], rest)"
    by (simp add: u c assms)
  then show ?thesis by (simp add: json_string_def)
qed

lemma json_Marshal_shape:
  "json_Marshal env =
     CHR ''{'' # (json_string ''room'' @ CHR '':'' # (json_string (Room env) @ CHR '','' #
       json_string ''username'' @ (CHR '':'' # (json_string (Username env) @ CHR '','' #
       json_string ''ts'' @ (CHR '':'' # (FormatInt (Ts env) @ CHR '','' #
       json_string ''payload'' @ (CHR '':'' # (json_bytes (Payload env) @ CHR ''}'' # []))))))))"
  by (simp add: json_Marshal_def)

lemma parse_value_Marshal:
  "parse_value (Suc (Suc (Suc (Suc (Suc (Suc m)))))) (json_Marshal env) = Some (JObject [(''room'', JString (coerce_utf8 (Room env))),
              (''username'', JString (coerce_utf8 (Username env))),
              (''ts'', JNumber (FormatInt (Ts env))),
              (''payload'', (case Payload env of None \<Rightarrow> JNull | Some bs \<Rightarrow> JString (base64_encode bs)))], [])"
proof -
  let ?v4 = "json_bytes (Payload env) @ CHR ''}'' # []"
  let ?m4 = "json_string ''payload'' @ (CHR '':'' # ?v4)"
  let ?v3 = "FormatInt (Ts env) @ CHR '','' # ?m4"
  let ?m3 = "json_string ''ts'' @ (CHR '':'' # ?v3)"
  let ?v2 = "json_string (Username env) @ CHR '','' # ?m3"
  let ?m2 = "json_string ''username'' @ (CHR '':'' # ?v2)"
  let ?v1 = "json_string (Room env) @ CHR '','' # ?m2"
  let ?m1 = "json_string ''room'' @ (CHR '':'' # ?v1)"
  let ?p = "(case Payload env of None \<Rightarrow> JNull | Some bs \<Rightarrow> JString (base64_encode bs))"
  have "parse_membs (Suc (Suc m)) ?m4 = Some ([(coerce_utf8 ''payload'', ?p)], [])"
    by (rule parse_membs_last [OF skip_ws_json_bytes parse_value_bytes])
  then have 4: "parse_membs (Suc (Suc m)) ?m4 = Some ([(''payload'', ?p)], [])"
    by (simp only: coerce_utf8_keys)
  have "parse_membs (Suc (Suc (Suc m))) ?m3 =
      (case parse_membs (Suc (Suc m)) ?m4 of
         None \<Rightarrow> None
       | Some (ms, rest2) \<Rightarrow> Some ((coerce_utf8 ''ts'', JNumber (FormatInt (Ts env))) # ms, rest2))"
    by (rule parse_membs_more [OF skip_ws_FormatInt parse_value_FormatInt])
  then have 3: "parse_membs (Suc (Suc (Suc m))) ?m3
      = Some ([(''ts'', JNumber (FormatInt (Ts env))), (''payload'', ?p)], [])"
    by (simp only: 4 coerce_utf8_keys option.case prod.case)
  have "parse_membs (Suc (Suc (Suc (Suc m)))) ?m2 =
      (case parse_membs (Suc (Suc (Suc m))) ?m3 of
         None \<Rightarrow> None
       | Some (ms, rest2) \<Rightarrow> Some ((coerce_utf8 ''username'', JString (coerce_utf8 (Username env))) # ms, rest2))"
    by (rule parse_membs_more [OF skip_ws_json_string parse_value_string])
  then have 2: "parse_membs (Suc (Suc (Suc (Suc m)))) ?m2
      = Some ([(''username'', JString (coerce_utf8 (Username env))),
               (''ts'', JNumber (FormatInt (Ts env))), (''payload'', ?p)], [])"
    by (simp only: 3 coerce_utf8_keys option.case prod.case)
  have "parse_membs (Suc (Suc (Suc (Suc (Suc m))))) ?m1 =
      (case parse_membs (Suc (Suc (Suc (Suc m)))) ?m2 of
         None \<Rightarrow> None
       | Some (ms, rest2) \<Rightarrow> Some ((coerce_utf8 ''room'', JString (coerce_utf8 (Room env))) # ms, rest2))"
    by (rule parse_membs_more [OF skip_ws_json_string parse_value_string])
  then have 1: "parse_membs (Suc (Suc (Suc (Suc (Suc m))))) ?m1
      = Some ([(''room'', JString (coerce_utf8 (Room env))),
               (''username'', JString (coerce_utf8 (Username env))),
               (''ts'', JNumber (FormatInt (Ts env))), (''payload'', ?p)], [])"
    by (simp only: 2 coerce_utf8_keys option.case prod.case)
  obtain x where x: "?m1 = CHR 0x22 # x" by (simp add: json_string_def)
  have s: "skip_ws ?m1 = ?m1" by (rule skip_ws_json_string)
  have "parse_value (Suc (Suc (Suc (Suc (Suc (Suc m)))))) (CHR ''{'' # ?m1)
      = (case parse_membs (Suc (Suc (Suc (Suc (Suc m))))) ?m1 of
           None \<Rightarrow> None | Some (ms, rest) \<Rightarrow> Some (JObject ms, rest))"
    unfolding parse_value.simps list.case s unfolding x by simp
  then show ?thesis
    unfolding json_Marshal_shape 1 by simp
qed

lemma length_json_Marshal: "5 \<le> length (json_Marshal env)"
  by (simp add: json_Marshal_def json_string_def)

lemma json_parse_Marshal: "json_parse (json_Marshal env) = Some (JObject [(''room'', JString (coerce_utf8 (Room env))),
              (''username'', JString (coerce_utf8 (Username env))),
              (''ts'', JNumber (FormatInt (Ts env))),
              (''payload'', (case Payload env of None \<Rightarrow> JNull | Some bs \<Rightarrow> JString (base64_encode bs)))])"
proof -
  obtain m where m: "length (json_Marshal env) = Suc (Suc (Suc (Suc (Suc m))))"
  proof -
    obtain k where "length (json_Marshal env) = 5 + k"
      using length_json_Marshal [of env] le_Suc_ex by blast
    then have "length (json_Marshal env) = Suc (Suc (Suc (Suc (Suc k))))" by simp
    then show ?thesis using that by blast
  qed
  have s: "skip_ws (json_Marshal env) = json_Marshal env"
    unfolding json_Marshal_shape by (simp add: skip_ws_def is_ws_def)
  show ?thesis
    unfolding json_parse_def s m parse_value_Marshal by (simp add: skip_ws_def)
qed

lemma field_of_exact:
  "field_of ftbl ''room'' = Some ''room''" "field_of ftbl ''username'' = Some ''username''"
  "field_of ftbl ''ts'' = Some ''ts''" "field_of ftbl ''payload'' = Some ''payload''"
  by (simp_all add: field_of_def)

lemma store_room:
  "store_member ftbl (env, err) (''room'', JString x) = (env\<lparr>Room := x\<rparr>, err)"
  by (simp add: store_member_def field_of_exact)

lemma store_username:
  "store_member ftbl (env, err) (''username'', JString x) = (env\<lparr>Username := x\<rparr>, err)"
  by (simp add: store_member_def field_of_exact)

lemma store_ts:
  "is_int64 i \<Longrightarrow> store_member ftbl (env, err) (''ts'', JNumber (FormatInt i)) = (env\<lparr>Ts := i\<rparr>, err)"
  by (simp add: store_member_def field_of_exact parse_int64_FormatInt)

lemma store_payload:
  "store_member ftbl (env, err)
     (''payload'', (case p of None \<Rightarrow> JNull | Some bs \<Rightarrow> JString (base64_encode bs)))
   = (env\<lparr>Payload := p\<rparr>, err)"
  by (cases p) (simp_all add: store_member_def field_of_exact base64_decode_encode)

text \<open>
  Decoding what \<^verbatim>\<open>json.Marshal\<close> wrote: every field of the struct is overwritten; the
  timestamp and the payload come back as they were, the two strings coerced to
  valid UTF-8.
\<close>

lemma Unmarshal_Marshal:
  assumes "is_int64 (Ts e)"
  shows "json_Unmarshal ftbl (json_Marshal e) env
     = (\<lparr>Room = coerce_utf8 (Room e), Username = coerce_utf8 (Username e), Ts = Ts e,
         Payload = Payload e\<rparr>, None)"
  unfolding json_Unmarshal_def json_parse_Marshal
  by (simp add: store_room store_username store_ts [OF assms] store_payload)

lemma EncodeRune_RuneError: "EncodeRune RuneError = [CHR 0xEF, CHR 0xBF, CHR 0xBD]"
  by (simp add: EncodeRune_def RuneError_def char_is byte_def)

lemma decode_size_le: "snd (DecodeRuneInString (c # s)) \<le> Suc (length s)"
proof (cases "byte c < RuneSelf")
  case True
  then show ?thesis by (simp add: DecodeRuneInString_ascii)
next
  case False
  then have hi: "RuneSelf \<le> byte c" by simp
  show ?thesis
  proof (cases "fst (DecodeRuneInString (c # s)) = RuneError \<and> snd (DecodeRuneInString (c # s)) = 1")
    case True
    then show ?thesis by simp
  next
    case False
    then show ?thesis using decode_multibyte [OF hi False, of "[]"] by blast
  qed
qed

lemma length_coerce_utf8:
  "length s \<le> length (coerce_utf8 s) \<and> (\<not> ValidString s \<longrightarrow> length s < length (coerce_utf8 s))"
proof (induction "length s" arbitrary: s rule: less_induct)
  case less
  show ?case
  proof (cases s)
    case Nil
    then show ?thesis by simp
  next
    case (Cons c s1)
    show ?thesis
    proof (cases "fst (DecodeRuneInString (c # s1)) = RuneError \<and> snd (DecodeRuneInString (c # s1)) = 1")
      case True
      have "length s1 \<le> length (coerce_utf8 s1)" using less Cons by simp
      then show ?thesis
        unfolding Cons coerce_utf8_bad [OF True] EncodeRune_RuneError by simp
    next
      case False
      let ?n = "snd (DecodeRuneInString (c # s1))"
      have n1: "1 \<le> ?n" by (rule decode_size_pos)
      have n2: "?n \<le> Suc (length s1)" by (rule decode_size_le)
      have l: "length (drop (?n - 1) s1) < length s" unfolding Cons by simp
      note ih = less [OF l]
      have v: "ValidString (c # s1) = ValidString (drop (?n - 1) s1)"
        unfolding ValidString_Cons using False by blast
      have t: "length (take ?n (c # s1)) = ?n" using n2 by simp
      have d: "length (drop (?n - 1) s1) = Suc (length s1) - ?n" using n1 by simp
      show ?thesis
        unfolding Cons v coerce_utf8_good [OF False] length_append t
        using ih n1 n2 unfolding d by auto
    qed
  qed
qed

lemma coerce_utf8_id_iff: "(coerce_utf8 s = s) = ValidString s"
proof
  assume e: "coerce_utf8 s = s"
  show "ValidString s"
  proof (rule ccontr)
    assume "\<not> ValidString s"
    then have "length s < length (coerce_utf8 s)" using length_coerce_utf8 by blast
    then show False unfolding e by simp
  qed
next
  assume "ValidString s"
  then show "coerce_utf8 s = s" by (rule coerce_utf8_valid)
qed

text \<open>
  C4. What the receiving side reads back from the bytes of \<^verbatim>\<open>MarshalEnvelope\<close>, for
  a timestamp that is an \<^verbatim>\<open>int64\<close> and whatever the struct held before: there is no
  error; the payload comes back byte for byte, for every byte sequence, the empty
  one and those that are not UTF-8 included (and a nil payload comes back nil);
  the timestamp comes back as it was; the room and the username come back coerced
  to valid UTF-8, every ill-formed byte replaced by \<^verbatim>\<open>U+FFFD\<close>, so each of them comes
  back identical exactly when it is valid UTF-8.
\<close>

theorem envelope_round_trip:
  "is_int64 now \<longrightarrow>
     json_Unmarshal ftbl (MarshalEnvelope rn un now payload) env
       = (\<lparr>Room = coerce_utf8 rn, Username = coerce_utf8 un, Ts = now, Payload = payload\<rparr>, None)
     \<and> (coerce_utf8 rn = rn) = ValidString rn
     \<and> (coerce_utf8 un = un) = ValidString un"
  unfolding MarshalEnvelope_def using Unmarshal_Marshal [of "\<lparr>Room = rn, Username = un, Ts = now, Payload = payload\<rparr>" ftbl env]
  by (simp add: coerce_utf8_id_iff)


lemma ValidString_all_ascii: "\<forall>c \<in> set s. byte c < RuneSelf \<Longrightarrow> ValidString s"
  using coerce_utf8_all_ascii coerce_utf8_id_iff by blast

theorem envelope_round_trip_witness:
  "is_int64 42
   \<and> json_Unmarshal id (MarshalEnvelope ''lobby'' ''bob'' 42 (Some [CHR 0xFF, CHR 0x00, CHR 0x0A])) zero_Envelope
       = (\<lparr>Room = ''lobby'', Username = ''bob'', Ts = 42, Payload = Some [CHR 0xFF, CHR 0x00, CHR 0x0A]\<rparr>, None)
   \<and> json_Unmarshal id (MarshalEnvelope ''lobby'' ''bob'' 42 (Some [])) zero_Envelope
       = (\<lparr>Room = ''lobby'', Username = ''bob'', Ts = 42, Payload = Some []\<rparr>, None)"
proof -
  have i: "is_int64 42" by (simp add: is_int64_def)
  have v: "ValidString ''lobby''" "ValidString ''bob''"
    by (rule ValidString_all_ascii, simp add: byte_def RuneSelf_def)+
  show ?thesis
    using envelope_round_trip [of 42 id "''lobby''" "''bob''" "Some [CHR 0xFF, CHR 0x00, CHR 0x0A]" zero_Envelope]
      envelope_round_trip [of 42 id "''lobby''" "''bob''" "Some []" zero_Envelope] i v
    by simp
qed

lemma udp_names_invalid_room:
  "udp_names id (''ROOM:'' @ [CHR ''a'', CHR 0xFF, CHR ''b''] @ '';USER:bob'' @ [CHR 0x0A] @ ''hi'') 7
     = ([CHR ''a'', CHR 0xFF, CHR ''b''], ''bob'', ''hi'')"
proof -
  let ?kvs = "[(''ROOM'', [CHR ''a'', CHR 0xFF, CHR ''b'']), (''USER'', ''bob'')]"
  have h: "\<forall>kv \<in> set ?kvs. header_pair kv"
    by (simp add: header_pair_def trimmed_def asciiSpace_def byte_def RuneSelf_def)
  have u: "ToUpper id ''ROOM'' = ''ROOM''" "ToUpper id ''USER'' = ''USER''"
    by (simp_all add: ToUpper_def byte_def RuneSelf_def)
  have "parseUDPFrame id (render_header ?kvs @ CHR 0x0A # ''hi'')
      = (spec_field id ''ROOM'' ?kvs, spec_field id ''USER'' ?kvs, ''hi'')"
    by (rule parseUDPFrame_render [OF h])
  then have "parseUDPFrame id (''ROOM:'' @ [CHR ''a'', CHR 0xFF, CHR ''b''] @ '';USER:bob'' @ [CHR 0x0A] @ ''hi'')
      = ([CHR ''a'', CHR 0xFF, CHR ''b''], ''bob'', ''hi'')"
    by (simp add: spec_field_def u)
  then show ?thesis by (simp add: udp_names_def)
qed

lemma coerce_utf8_aFFb:
  "coerce_utf8 [CHR ''a'', CHR 0xFF, CHR ''b''] = [CHR ''a'', CHR 0xEF, CHR 0xBF, CHR 0xBD, CHR ''b'']"
proof -
  have a: "byte CHR ''a'' < RuneSelf" "byte CHR ''b'' < RuneSelf" by (simp_all add: byte_def RuneSelf_def)
  have "0xF5 \<le> byte CHR 0xFF" by (simp add: byte_def)
  then have "DecodeRuneInString [CHR 0xFF, CHR ''b''] = (RuneError, 1)" by (rule dec5)
  then have f: "coerce_utf8 [CHR 0xFF, CHR ''b''] = EncodeRune RuneError @ coerce_utf8 [CHR ''b'']"
    by (intro coerce_utf8_bad) simp
  show ?thesis
    unfolding coerce_utf8_ascii [OF a(1)] f coerce_utf8_ascii [OF a(2)] EncodeRune_RuneError
    by simp
qed

text \<open>
  A room name that is not valid UTF-8 does not come back. The datagram header
  \<^verbatim>\<open>ROOM:a\xffb;USER:bob\<close> gives the room \<^verbatim>\<open>a\xffb\<close>, which the loop hands to
  \<^verbatim>\<open>MarshalEnvelope\<close>; the byte \<^verbatim>\<open>0xFF\<close> is written as the escape of \<^verbatim>\<open>U+FFFD\<close> and
  read back as the three bytes of that rune.
\<close>

theorem invalid_utf8_room_comes_back_changed:
  "udp_names id (''ROOM:'' @ [CHR ''a'', CHR 0xFF, CHR ''b''] @ '';USER:bob'' @ [CHR 0x0A] @ ''hi'') 7
     = ([CHR ''a'', CHR 0xFF, CHR ''b''], ''bob'', ''hi'')
   \<and> json_Unmarshal id (MarshalEnvelope [CHR ''a'', CHR 0xFF, CHR ''b''] ''bob'' 42 (Some ''hi'')) zero_Envelope
     = (\<lparr>Room = [CHR ''a'', CHR 0xEF, CHR 0xBF, CHR 0xBD, CHR ''b''], Username = ''bob'', Ts = 42,
         Payload = Some ''hi''\<rparr>, None)
   \<and> Room (fst (json_Unmarshal id (MarshalEnvelope [CHR ''a'', CHR 0xFF, CHR ''b''] ''bob'' 42 (Some ''hi''))
                  zero_Envelope))
       \<noteq> [CHR ''a'', CHR 0xFF, CHR ''b'']"
proof -
  have i: "is_int64 (Ts \<lparr>Room = [CHR ''a'', CHR 0xFF, CHR ''b''], Username = ''bob'', Ts = 42, Payload = Some ''hi''\<rparr>)"
    by (simp add: is_int64_def)
  have b: "coerce_utf8 ''bob'' = ''bob''"
    by (rule coerce_utf8_all_ascii) (simp add: byte_def RuneSelf_def)
  have e: "json_Unmarshal id
        (json_Marshal \<lparr>Room = [CHR ''a'', CHR 0xFF, CHR ''b''], Username = ''bob'', Ts = 42, Payload = Some ''hi''\<rparr>)
        zero_Envelope
      = (\<lparr>Room = coerce_utf8 [CHR ''a'', CHR 0xFF, CHR ''b''], Username = coerce_utf8 ''bob'', Ts = 42,
          Payload = Some ''hi''\<rparr>, None)"
    using Unmarshal_Marshal [OF i] by (simp del: coerce_utf8.simps)
  show ?thesis
    unfolding MarshalEnvelope_def e coerce_utf8_aFFb b udp_names_invalid_room by simp
qed



section \<open>Datagrams: forwarding and injection\<close>


lemma room_peers_upsert_other:
  "rn' \<noteq> rn \<Longrightarrow> room_peers (upsert_peer tab rn un p) rn' = room_peers tab rn'"
  by (simp add: upsert_peer_def room_peers_def Let_def)










end
